theory Spec2Isabelle
  imports Complex_Main "HOL-Library.Product_Lexorder"
begin

section \<open>Road graph\<close>

text \<open>
  The shelter service-area code of \<^verbatim>\<open>area_data_generator.py\<close> builds and searches a
  \<^verbatim>\<open>QgsGraph\<close> of the GIS library.  The library is not part of the sources; its graph is
  modelled by what the code uses of it.  A coordinate is a pair of numbers; floating-point
  rounding is not modelled, coordinates and lengths are real numbers, and two points are
  the same vertex exactly when their coordinates are equal.  A graph is the list of its
  vertex points (a vertex id is the position in that list) and the list of its directed
  edges in insertion order, each with its two vertex ids and the single cost the builder
  stores.
\<close>

type_synonym point = "real \<times> real"

record edge =
  fromVertex :: nat
  toVertex :: nat
  cost :: real

record graph =
  vertices :: "point list"
  edges :: "edge list"

datatype error = TypeError | KeyError | IndexError | ValueError | ZeroDivisionError

definition empty_graph :: graph where
  "empty_graph = \<lparr>vertices = [], edges = []\<rparr>"

definition vertexCount :: "graph \<Rightarrow> nat" where
  "vertexCount g = length (vertices g)"

text \<open>\<^verbatim>\<open>graph.vertex(i).point()\<close>; an id that is no vertex raises.\<close>

definition vertex_point :: "graph \<Rightarrow> nat \<Rightarrow> error + point" where
  "vertex_point g i = (if i < length (vertices g) then Inr (vertices g ! i) else Inl IndexError)"

text \<open>\<^verbatim>\<open>QgsGraph.addVertex\<close> and \<^verbatim>\<open>QgsGraph.addEdge\<close>, as the graph builder calls them.\<close>

definition addVertex :: "graph \<Rightarrow> point \<Rightarrow> graph" where
  "addVertex g p = g\<lparr>vertices := vertices g @ [p]\<rparr>"

definition addEdge :: "graph \<Rightarrow> nat \<Rightarrow> nat \<Rightarrow> real \<Rightarrow> graph" where
  "addEdge g i j w = g\<lparr>edges := edges g @ [\<lparr>fromVertex = i, toVertex = j, cost = w\<rparr>]\<rparr>"

text \<open>
  \<^verbatim>\<open>graph.findVertex(p)\<close>: the first vertex id whose point is \<open>p\<close>; \<open>None\<close> stands for the
  library's \<open>-1\<close>.
\<close>

fun find_from :: "point list \<Rightarrow> nat \<Rightarrow> point \<Rightarrow> nat option" where
  "find_from [] i p = None"
| "find_from (q # qs) i p = (if q = p then Some i else find_from qs (Suc i) p)"

definition findVertex :: "graph \<Rightarrow> point \<Rightarrow> nat option" where
  "findVertex g p = find_from (vertices g) 0 p"

text \<open>
  The edges leaving and entering a vertex, in insertion order: what
  \<^verbatim>\<open>graph.edge(idx)\<close> gives for the ids of \<^verbatim>\<open>outgoingEdges()\<close> and \<^verbatim>\<open>incomingEdges()\<close>.
\<close>

definition outgoingEdges :: "graph \<Rightarrow> nat \<Rightarrow> edge list" where
  "outgoingEdges g v = filter (\<lambda>e. fromVertex e = v) (edges g)"

definition incomingEdges :: "graph \<Rightarrow> nat \<Rightarrow> edge list" where
  "incomingEdges g v = filter (\<lambda>e. toVertex e = v) (edges g)"

definition graph_ok :: "graph \<Rightarrow> bool" where
  "graph_ok g = list_all (\<lambda>e. fromVertex e < length (vertices g) \<and> toVertex e < length (vertices g)) (edges g)"

section \<open>Building the graph from road features\<close>

text \<open>
  Modelled from the spec: the length of a two-point polyline,
  \<^verbatim>\<open>QgsGeometry.fromPolylineXY([p1, p2]).length()\<close>, is the Euclidean length of the segment.
\<close>

definition segment_length :: "point \<Rightarrow> point \<Rightarrow> real" where
  "segment_length p q = sqrt ((fst q - fst p)\<^sup>2 + (snd q - snd p)\<^sup>2)"

text \<open>
  A road feature's geometry: empty, a polyline, a multi-polyline, or of another WKB type
  (the number is the type code).
\<close>

datatype road_geom =
    EmptyGeometry
  | LineString "point list"
  | MultiLineString "point list list"
  | OtherGeometry nat

record builder_state =
  vertex_map :: "point \<rightharpoonup> nat"
  vertex_id_counter :: nat
  builder :: graph

definition init_builder :: builder_state where
  "init_builder = \<lparr>vertex_map = Map.empty, vertex_id_counter = 0, builder = empty_graph\<rparr>"

text \<open>\<^verbatim>\<open>if p not in vertex_map: ...\<close>\<close>

definition register_vertex :: "builder_state \<Rightarrow> point \<Rightarrow> builder_state" where
  "register_vertex st p =
     (if p \<notin> dom (vertex_map st)
      then \<lparr>vertex_map = (vertex_map st)(p \<mapsto> vertex_id_counter st),
            vertex_id_counter = vertex_id_counter st + 1,
            builder = addVertex (builder st) p\<rparr>
      else st)"

text \<open>The body of the loop over \<^verbatim>\<open>range(len(line) - 1)\<close> for one segment.\<close>

definition add_segment :: "builder_state \<Rightarrow> point \<Rightarrow> point \<Rightarrow> error + builder_state" where
  "add_segment st p1 p2 =
     (let st1 = register_vertex st p1;
          st2 = register_vertex st1 p2
      in case vertex_map st2 p1 of
           None \<Rightarrow> Inl KeyError
         | Some id1 \<Rightarrow>
             (case vertex_map st2 p2 of
                None \<Rightarrow> Inl KeyError
              | Some id2 \<Rightarrow>
                  Inr (st2\<lparr>builder := addEdge (builder st2) id1 id2 (segment_length p1 p2)\<rparr>)))"

text \<open>One line: nothing for fewer than two points, else every consecutive pair in order.\<close>

fun add_line :: "builder_state \<Rightarrow> point list \<Rightarrow> error + builder_state" where
  "add_line st (p1 # p2 # ps) =
     (case add_segment st p1 p2 of
        Inl e \<Rightarrow> Inl e
      | Inr st' \<Rightarrow> add_line st' (p2 # ps))"
| "add_line st ps = Inr st"

fun add_lines :: "builder_state \<Rightarrow> point list list \<Rightarrow> error + builder_state" where
  "add_lines st [] = Inr st"
| "add_lines st (l # ls) =
     (case add_line st l of
        Inl e \<Rightarrow> Inl e
      | Inr st' \<Rightarrow> add_lines st' ls)"

text \<open>
  One feature.  An empty geometry is skipped (a polyline without points, if it is not
  reported as empty, adds nothing either).  For a geometry that is neither a polyline
  nor a multi-polyline the source builds its warning with
  \<^verbatim>\<open>self.tr("Unsupported geometry type: %1").replace("%1", geom_type)\<close>, where
  \<^verbatim>\<open>geom_type\<close> is the WKB type and no string: \<^verbatim>\<open>str.replace\<close> raises.
\<close>

fun add_feature :: "builder_state \<Rightarrow> road_geom \<Rightarrow> error + builder_state" where
  "add_feature st EmptyGeometry = Inr st"
| "add_feature st (MultiLineString ls) = add_lines st ls"
| "add_feature st (LineString l) = add_lines st [l]"
| "add_feature st (OtherGeometry t) = Inl TypeError"

fun add_features :: "builder_state \<Rightarrow> road_geom list \<Rightarrow> error + builder_state" where
  "add_features st [] = Inr st"
| "add_features st (f # fs) =
     (case add_feature st f of
        Inl e \<Rightarrow> Inl e
      | Inr st' \<Rightarrow> add_features st' fs)"

definition extract_road_nodes :: "road_geom list \<Rightarrow> error + graph" where
  "extract_road_nodes roads =
     (case add_features init_builder roads of
        Inl e \<Rightarrow> Inl e
      | Inr st \<Rightarrow> Inr (builder st))"

subsection \<open>Segment endpoints of the input\<close>

text \<open>
  The consecutive pairs of a line, the coordinates that are an endpoint of one of them,
  and the features the builder accepts.
\<close>

definition line_segments :: "point list \<Rightarrow> (point \<times> point) list" where
  "line_segments l = zip l (tl l)"

definition line_endpoints :: "point list \<Rightarrow> point set" where
  "line_endpoints l = fst ` set (line_segments l) \<union> snd ` set (line_segments l)"

fun geom_lines :: "road_geom \<Rightarrow> point list list" where
  "geom_lines EmptyGeometry = []"
| "geom_lines (LineString l) = [l]"
| "geom_lines (MultiLineString ls) = ls"
| "geom_lines (OtherGeometry t) = []"

definition segment_endpoints :: "road_geom list \<Rightarrow> point set" where
  "segment_endpoints roads = (\<Union>f \<in> set roads. \<Union>l \<in> set (geom_lines f). line_endpoints l)"

fun supported :: "road_geom \<Rightarrow> bool" where
  "supported (OtherGeometry t) = False"
| "supported f = True"

definition shared_endpoint_roads :: "road_geom list" where
  "shared_endpoint_roads = [LineString [(0, 0), (1, 0)], LineString [(1, 0), (1, 1)]]"

section \<open>Nearest road nodes\<close>

text \<open>
  \<^verbatim>\<open>nearest_point\<close> keeps two lists of \<open>k\<close> slots: the distances, initialised to
  \<^verbatim>\<open>float('inf')\<close>, and the points, initialised to the query point.
\<close>

datatype pyfloat = Finite real | Infinity

fun float_less :: "pyfloat \<Rightarrow> pyfloat \<Rightarrow> bool" where
  "float_less (Finite a) (Finite b) = (a < b)"
| "float_less (Finite a) Infinity = True"
| "float_less Infinity b = False"

text \<open>Python's \<^verbatim>\<open>max\<close> of a list: the first greatest element; it raises on an empty list.\<close>

fun py_max :: "pyfloat list \<Rightarrow> error + pyfloat" where
  "py_max [] = Inl ValueError"
| "py_max (x # xs) = Inr (fold (\<lambda>y m. if float_less m y then y else m) xs x)"

text \<open>\<^verbatim>\<open>list.index\<close>: the first position of a value; it raises when the value is absent.\<close>

fun py_index :: "pyfloat list \<Rightarrow> pyfloat \<Rightarrow> error + nat" where
  "py_index [] v = Inl ValueError"
| "py_index (x # xs) v =
     (if x = v then Inr 0
      else case py_index xs v of Inl e \<Rightarrow> Inl e | Inr i \<Rightarrow> Inr (Suc i))"

text \<open>
  Modelled from the spec: \<^verbatim>\<open>calculate_meter\<close> asks the geometry library for the distance of
  two point geometries, the planar Euclidean distance.
\<close>

definition calculate_meter :: "point \<Rightarrow> point \<Rightarrow> real" where
  "calculate_meter starting_point destination =
     sqrt ((fst destination - fst starting_point)\<^sup>2 + (snd destination - snd starting_point)\<^sup>2)"

record nearest_state =
  nearest :: "pyfloat list"
  nearest_points :: "point list"

text \<open>The loop body of \<^verbatim>\<open>nearest_point\<close> for one vertex.\<close>

definition scan_vertex :: "point \<Rightarrow> nearest_state \<Rightarrow> point \<Rightarrow> error + nearest_state" where
  "scan_vertex point ns node_point =
     (let distance = Finite (calculate_meter point node_point)
      in case py_max (nearest ns) of
           Inl e \<Rightarrow> Inl e
         | Inr m \<Rightarrow>
             if float_less distance m
             then (case py_index (nearest ns) m of
                     Inl e \<Rightarrow> Inl e
                   | Inr max_idx \<Rightarrow>
                       Inr \<lparr>nearest = (nearest ns)[max_idx := distance],
                            nearest_points = (nearest_points ns)[max_idx := node_point]\<rparr>)
             else Inr ns)"

fun scan_vertices :: "point \<Rightarrow> nearest_state \<Rightarrow> point list \<Rightarrow> error + nearest_state" where
  "scan_vertices point ns [] = Inr ns"
| "scan_vertices point ns (v # vs) =
     (case scan_vertex point ns v of
        Inl e \<Rightarrow> Inl e
      | Inr ns' \<Rightarrow> scan_vertices point ns' vs)"

definition nearest_point :: "graph \<Rightarrow> point \<Rightarrow> nat \<Rightarrow> error + point list" where
  "nearest_point node_graph point k =
     (case scan_vertices point
             \<lparr>nearest = replicate k Infinity, nearest_points = replicate k point\<rparr>
             (vertices node_graph) of
        Inl e \<Rightarrow> Inl e
      | Inr ns \<Rightarrow> Inr (nearest_points ns))"

section \<open>Budgeted search with buffer emission\<close>

text \<open>
  Two kinds of Python value stand for a coordinate in \<^verbatim>\<open>dijkstra\<close>.  The heap entries
  are built as \<^verbatim>\<open>(0, (start.x(), start.y()))\<close> and
  \<^verbatim>\<open>(new_distance, (next_node.x(), next_node.y()))\<close>, so \<^verbatim>\<open>current_node\<close>, and with it
  every element put into \<^verbatim>\<open>searched_list\<close>, is a tuple \<^verbatim>\<open>(x, y)\<close>.  The neighbour
  \<^verbatim>\<open>next_node\<close> is \<^verbatim>\<open>start_node\<close> or \<^verbatim>\<open>end_node\<close>, the result of
  \<^verbatim>\<open>graph.vertex(...).point()\<close>: a \<^verbatim>\<open>QgsPointXY\<close> object.  Both kinds meet in the visited
  set, so its element type has a constructor for each.  In Python a tuple and a point
  object are never equal, whatever their coordinates, and so are the two constructors.
\<close>

datatype pyobj = Tuple point | QgsPointXY point

type_synonym queue_entry = "real \<times> point"

text \<open>\<^verbatim>\<open>LineString([start_node, end_node]).buffer(buff)\<close>: the segment and the width.\<close>

record buffered_line =
  line_start :: point
  line_end :: point
  buff :: real

record search_state =
  priority_queue :: "queue_entry list"
  searched_list :: "pyobj set"
  searched_roads :: "buffered_line list"

text \<open>
  The heap of \<^verbatim>\<open>heapq\<close> is kept as the list of its entries, with the usual reading of a
  priority queue: \<^verbatim>\<open>heappop\<close> takes out the least entry, and raises on an empty heap.
  The order is that of Python tuples, the lexicographic order of \<open>(distance, (x, y))\<close>;
  entries that compare equal are the same value, so the position of the entries inside
  the heap's array is never observable.
\<close>

definition heappush :: "queue_entry list \<Rightarrow> queue_entry \<Rightarrow> queue_entry list" where
  "heappush q e = q @ [e]"

definition heappop :: "queue_entry list \<Rightarrow> error + (queue_entry \<times> queue_entry list)" where
  "heappop q = (if q = [] then Inl IndexError else Inr (Min (set q), remove1 (Min (set q)) q))"

definition buffer_width :: "real \<Rightarrow> real \<Rightarrow> real \<Rightarrow> real" where
  "buffer_width buffer_distance max_distance new_distance =
     buffer_distance * (max_distance - new_distance) / max_distance"

text \<open>
  The guarded push and the buffer of one traversal.  \<open>next_node\<close> is the point object of
  the neighbour, and \<^verbatim>\<open>next_node not in searched_list\<close> asks the visited set for that
  object.  The division by \<open>max_distance\<close> raises when it is zero.
\<close>

definition relax :: "real \<Rightarrow> real \<Rightarrow> search_state \<Rightarrow> point \<Rightarrow> point \<Rightarrow> point \<Rightarrow> real
    \<Rightarrow> error + search_state" where
  "relax max_distance buffer_distance st start_node end_node next_node new_distance =
     (if QgsPointXY next_node \<notin> searched_list st \<and> new_distance \<le> max_distance
      then let st1 = st\<lparr>priority_queue := heappush (priority_queue st) (new_distance, next_node)\<rparr>
           in if new_distance \<le> max_distance
              then if max_distance = 0 then Inl ZeroDivisionError
                   else Inr (st1\<lparr>searched_roads := searched_roads st1 @
                          [\<lparr>line_start = start_node, line_end = end_node,
                            buff = buffer_width buffer_distance max_distance new_distance\<rparr>]\<rparr>)
              else Inr st1
      else Inr st)"

text \<open>One edge of the popped vertex.\<close>

definition visit_edge :: "graph \<Rightarrow> real \<Rightarrow> real \<Rightarrow> real \<Rightarrow> point \<Rightarrow> search_state \<Rightarrow> edge
    \<Rightarrow> error + search_state" where
  "visit_edge graph max_distance buffer_distance current_distance current_node st e =
     (case vertex_point graph (fromVertex e) of
        Inl err \<Rightarrow> Inl err
      | Inr start_node \<Rightarrow>
          (case vertex_point graph (toVertex e) of
             Inl err \<Rightarrow> Inl err
           | Inr end_node \<Rightarrow>
               if current_node = start_node
               then relax max_distance buffer_distance st start_node end_node end_node
                      (current_distance + cost e)
               else if current_node = end_node
               then relax max_distance buffer_distance st start_node end_node start_node
                      (current_distance + cost e)
               else Inr st))"

fun visit_edges :: "graph \<Rightarrow> real \<Rightarrow> real \<Rightarrow> real \<Rightarrow> point \<Rightarrow> search_state \<Rightarrow> edge list
    \<Rightarrow> error + search_state" where
  "visit_edges graph max_distance buffer_distance current_distance current_node st [] = Inr st"
| "visit_edges graph max_distance buffer_distance current_distance current_node st (e # es) =
     (case visit_edge graph max_distance buffer_distance current_distance current_node st e of
        Inl err \<Rightarrow> Inl err
      | Inr st' \<Rightarrow>
          visit_edges graph max_distance buffer_distance current_distance current_node st' es)"

text \<open>One turn of the \<^verbatim>\<open>while priority_queue:\<close> loop.\<close>

definition loop_body :: "graph \<Rightarrow> real \<Rightarrow> real \<Rightarrow> search_state \<Rightarrow> error + search_state" where
  "loop_body graph max_distance buffer_distance st =
     (case heappop (priority_queue st) of
        Inl err \<Rightarrow> Inl err
      | Inr ((current_distance, current_node), rest) \<Rightarrow>
          let st0 = st\<lparr>priority_queue := rest\<rparr>
          in if Tuple current_node \<in> searched_list st0 then Inr st0
             else let st1 = st0\<lparr>searched_list := insert (Tuple current_node) (searched_list st0)\<rparr>
                  in if current_distance > max_distance then Inr st1
                     else (case findVertex graph current_node of
                             None \<Rightarrow> Inr st1
                           | Some vertex_id \<Rightarrow>
                               visit_edges graph max_distance buffer_distance
                                 current_distance current_node st1
                                 (outgoingEdges graph vertex_id @ incomingEdges graph vertex_id)))"

text \<open>
  The measure of the loop: the coordinates of the graph and of the queue that are not yet
  in the visited set, then the length of the queue.
\<close>

definition unvisited :: "graph \<Rightarrow> search_state \<Rightarrow> point set" where
  "unvisited graph st =
     (set (vertices graph) \<union> snd ` set (priority_queue st)) - {p. Tuple p \<in> searched_list st}"

function dijkstra_loop :: "graph \<Rightarrow> real \<Rightarrow> real \<Rightarrow> search_state \<Rightarrow> error + search_state" where
  "dijkstra_loop graph max_distance buffer_distance st =
     (if priority_queue st = [] then Inr st
      else case loop_body graph max_distance buffer_distance st of
             Inl err \<Rightarrow> Inl err
           | Inr st' \<Rightarrow> dijkstra_loop graph max_distance buffer_distance st')"
  by pat_completeness auto

definition init_search :: "point list \<Rightarrow> search_state" where
  "init_search start_points =
     \<lparr>priority_queue = map (\<lambda>start. (0, start)) start_points,
      searched_list = {},
      searched_roads = []\<rparr>"

text \<open>The buffers collected by a search, before they are merged.\<close>

definition dijkstra_roads :: "graph \<Rightarrow> point list \<Rightarrow> real \<Rightarrow> real \<Rightarrow> error + buffered_line list" where
  "dijkstra_roads graph start_points max_distance buffer_distance =
     (case dijkstra_loop graph max_distance buffer_distance (init_search start_points) of
        Inl err \<Rightarrow> Inl err
      | Inr st \<Rightarrow> Inr (searched_roads st))"

text \<open>
  \<^verbatim>\<open>unary_union\<close> of the geometry library returns a geometry of one of three classes: a
  polygon, a multi-polygon when the union has several parts, a geometry collection when
  there is nothing to unite.  The geometry is kept as its class and its WKT text.  The
  union itself is a parameter of \<open>dijkstra\<close>; the unused parameter
  \<^verbatim>\<open>shelters_inf\<close> of the source is left out.
\<close>

datatype shapely_geom = Polygon string | MultiPolygon string | GeometryCollection string

definition dijkstra :: "(buffered_line list \<Rightarrow> shapely_geom) \<Rightarrow> graph \<Rightarrow> point list \<Rightarrow> real \<Rightarrow> real
    \<Rightarrow> error + shapely_geom list" where
  "dijkstra unary_union graph start_points max_distance buffer_distance =
     (case dijkstra_roads graph start_points max_distance buffer_distance of
        Inl err \<Rightarrow> Inl err
      | Inr roads \<Rightarrow> Inr [unary_union roads])"

text \<open>
  What is used of the library's union beyond its classes: the union of no geometry is the
  empty geometry collection, WKT \<^verbatim>\<open>GEOMETRYCOLLECTION EMPTY\<close>, which is no instance of
  \<^verbatim>\<open>Polygon\<close>.  \<open>library_union\<close> holds of a union function that agrees with the
  library there.
\<close>

definition union_of_nothing :: shapely_geom where
  "union_of_nothing = GeometryCollection ''GEOMETRYCOLLECTION EMPTY''"

definition library_union :: "(buffered_line list \<Rightarrow> shapely_geom) \<Rightarrow> bool" where
  "library_union unary_union \<longleftrightarrow> unary_union [] = union_of_nothing"

text \<open>\<open>n\<close> turns of the loop, each popping one entry.\<close>

fun pops :: "nat \<Rightarrow> graph \<Rightarrow> real \<Rightarrow> real \<Rightarrow> search_state \<Rightarrow> error + search_state" where
  "pops 0 graph max_distance buffer_distance st = Inr st"
| "pops (Suc n) graph max_distance buffer_distance st =
     (case loop_body graph max_distance buffer_distance st of
        Inl err \<Rightarrow> Inl err
      | Inr st' \<Rightarrow> pops n graph max_distance buffer_distance st')"

section \<open>Storing a shelter's area\<close>

text \<open>
  The part of \<^verbatim>\<open>create_shelter_area\<close> that stores what the search returned for one
  shelter, when no cancellation is requested: a feature with the geometry's WKT and the
  shelter's \<open>fid\<close> (a number here, its decimal text in the source) for every returned
  geometry that is an instance of \<^verbatim>\<open>Polygon\<close>; for any other geometry a message is printed
  and nothing is stored.  The buffer distance of the roads is the constant 200.
\<close>

record buffer_feature =
  geometry :: string
  attributes :: "int list"

fun add_buffer_features :: "int \<Rightarrow> shapely_geom list \<Rightarrow> buffer_feature list \<Rightarrow> buffer_feature list" where
  "add_buffer_features fid [] layer = layer"
| "add_buffer_features fid (Polygon wkt # rest) layer =
     add_buffer_features fid rest (layer @ [\<lparr>geometry = wkt, attributes = [fid]\<rparr>])"
| "add_buffer_features fid (other # rest) layer = add_buffer_features fid rest layer"

definition shelter_area :: "(buffered_line list \<Rightarrow> shapely_geom) \<Rightarrow> graph \<Rightarrow> point list \<Rightarrow> real \<Rightarrow> int
    \<Rightarrow> buffer_feature list \<Rightarrow> error + buffer_feature list" where
  "shelter_area unary_union node_graph nearest_nodes distance fid layer =
     (case dijkstra unary_union node_graph nearest_nodes distance 200 of
        Inl err \<Rightarrow> Inl err
      | Inr merge_searched_road \<Rightarrow> Inr (add_buffer_features fid merge_searched_road layer))"

section \<open>The search as the specification words it\<close>

text \<open>
  For comparison only, and used by no definition of the program above: the same loop with
  the guard the specification describes, "the neighbor is unvisited", asked of the
  neighbour's coordinate.  Only the visited test of \<open>relax\<close> differs; \<open>spec_pops\<close> runs
  a given number of turns.
\<close>

definition spec_relax :: "real \<Rightarrow> real \<Rightarrow> search_state \<Rightarrow> point \<Rightarrow> point \<Rightarrow> point \<Rightarrow> real
    \<Rightarrow> error + search_state" where
  "spec_relax max_distance buffer_distance st start_node end_node next_node new_distance =
     (if Tuple next_node \<notin> searched_list st \<and> new_distance \<le> max_distance
      then if max_distance = 0 then Inl ZeroDivisionError
           else Inr (st\<lparr>priority_queue := heappush (priority_queue st) (new_distance, next_node),
                        searched_roads := searched_roads st @
                          [\<lparr>line_start = start_node, line_end = end_node,
                            buff = buffer_width buffer_distance max_distance new_distance\<rparr>]\<rparr>)
      else Inr st)"

definition spec_visit_edge :: "graph \<Rightarrow> real \<Rightarrow> real \<Rightarrow> real \<Rightarrow> point \<Rightarrow> search_state \<Rightarrow> edge
    \<Rightarrow> error + search_state" where
  "spec_visit_edge graph max_distance buffer_distance current_distance current_node st e =
     (case vertex_point graph (fromVertex e) of
        Inl err \<Rightarrow> Inl err
      | Inr start_node \<Rightarrow>
          (case vertex_point graph (toVertex e) of
             Inl err \<Rightarrow> Inl err
           | Inr end_node \<Rightarrow>
               if current_node = start_node
               then spec_relax max_distance buffer_distance st start_node end_node end_node
                      (current_distance + cost e)
               else if current_node = end_node
               then spec_relax max_distance buffer_distance st start_node end_node start_node
                      (current_distance + cost e)
               else Inr st))"

fun spec_visit_edges :: "graph \<Rightarrow> real \<Rightarrow> real \<Rightarrow> real \<Rightarrow> point \<Rightarrow> search_state \<Rightarrow> edge list
    \<Rightarrow> error + search_state" where
  "spec_visit_edges graph max_distance buffer_distance current_distance current_node st [] = Inr st"
| "spec_visit_edges graph max_distance buffer_distance current_distance current_node st (e # es) =
     (case spec_visit_edge graph max_distance buffer_distance current_distance current_node st e of
        Inl err \<Rightarrow> Inl err
      | Inr st' \<Rightarrow>
          spec_visit_edges graph max_distance buffer_distance current_distance current_node st' es)"

definition spec_loop_body :: "graph \<Rightarrow> real \<Rightarrow> real \<Rightarrow> search_state \<Rightarrow> error + search_state" where
  "spec_loop_body graph max_distance buffer_distance st =
     (case heappop (priority_queue st) of
        Inl err \<Rightarrow> Inl err
      | Inr ((current_distance, current_node), rest) \<Rightarrow>
          let st0 = st\<lparr>priority_queue := rest\<rparr>
          in if Tuple current_node \<in> searched_list st0 then Inr st0
             else let st1 = st0\<lparr>searched_list := insert (Tuple current_node) (searched_list st0)\<rparr>
                  in if current_distance > max_distance then Inr st1
                     else (case findVertex graph current_node of
                             None \<Rightarrow> Inr st1
                           | Some vertex_id \<Rightarrow>
                               spec_visit_edges graph max_distance buffer_distance
                                 current_distance current_node st1
                                 (outgoingEdges graph vertex_id @ incomingEdges graph vertex_id)))"

fun spec_pops :: "nat \<Rightarrow> graph \<Rightarrow> real \<Rightarrow> real \<Rightarrow> search_state \<Rightarrow> error + search_state" where
  "spec_pops 0 graph max_distance buffer_distance st = Inr st"
| "spec_pops (Suc n) graph max_distance buffer_distance st =
     (case spec_loop_body graph max_distance buffer_distance st of
        Inl err \<Rightarrow> Inl err
      | Inr st' \<Rightarrow> spec_pops n graph max_distance buffer_distance st')"

section \<open>Predicates used in the properties\<close>

text \<open>
  The invariant of the builder: the vertex list has no repetition, the counter is its
  length, the keys of \<open>vertex_map\<close> are its elements, each mapped to its position, and
  every edge joins existing vertices.
\<close>

definition builder_inv :: "builder_state \<Rightarrow> bool" where
  "builder_inv st \<longleftrightarrow>
     distinct (vertices (builder st)) \<and>
     vertex_id_counter st = length (vertices (builder st)) \<and>
     dom (vertex_map st) = set (vertices (builder st)) \<and>
     (\<forall>p i. vertex_map st p = Some i \<longrightarrow>
        i < length (vertices (builder st)) \<and> vertices (builder st) ! i = p) \<and>
     graph_ok (builder st)"

text \<open>Every queued entry has a cumulative distance within the budget.\<close>

definition within_budget :: "real \<Rightarrow> search_state \<Rightarrow> bool" where
  "within_budget max_distance st = list_all (\<lambda>entry. fst entry \<le> max_distance) (priority_queue st)"

text \<open>
  The next turn of the loop pops an unvisited entry and leaves through
  \<^verbatim>\<open>if current_distance > max_distance: continue\<close>.
\<close>

definition discards_over_budget :: "real \<Rightarrow> search_state \<Rightarrow> bool" where
  "discards_over_budget max_distance st =
     (case heappop (priority_queue st) of
        Inl err \<Rightarrow> False
      | Inr ((current_distance, current_node), rest) \<Rightarrow>
          Tuple current_node \<notin> searched_list st \<and> current_distance > max_distance)"

text \<open>Every queued entry has a cumulative distance that is not negative.\<close>

definition nonneg_queue :: "search_state \<Rightarrow> bool" where
  "nonneg_queue st = list_all (\<lambda>entry. 0 \<le> fst entry) (priority_queue st)"

text \<open>Every edge weight is positive.\<close>

definition positive_weights :: "graph \<Rightarrow> bool" where
  "positive_weights g = list_all (\<lambda>e. 0 < cost e) (edges g)"

text \<open>
  No traversal from a start point fits the budget: a start point is no vertex of the
  graph, or every edge at its vertex costs more than \<open>max_distance\<close>.
\<close>

definition no_hop_within_budget :: "graph \<Rightarrow> point list \<Rightarrow> real \<Rightarrow> bool" where
  "no_hop_within_budget g start_points max_distance =
     list_all (\<lambda>start. case findVertex g start of
                  None \<Rightarrow> True
                | Some v \<Rightarrow> list_all (\<lambda>e. max_distance < cost e)
                              (outgoingEdges g v @ incomingEdges g v))
       start_points"

text \<open>The queue holds start entries only and no buffer has been collected.\<close>

definition seeds_only :: "point list \<Rightarrow> search_state \<Rightarrow> bool" where
  "seeds_only start_points st \<longleftrightarrow>
     set (priority_queue st) \<subseteq> (\<lambda>start. (0, start)) ` set start_points \<and> searched_roads st = []"

text \<open>
  Every buffer of a list has the width the decay formula gives for some tentative
  distance within the budget.
\<close>

definition emitted_within :: "real \<Rightarrow> real \<Rightarrow> buffered_line list \<Rightarrow> bool" where
  "emitted_within buffer_distance max_distance roads =
     list_all (\<lambda>b. \<exists>d. d \<le> max_distance \<and> buff b = buffer_width buffer_distance max_distance d) roads"

section \<open>Scenarios\<close>

text \<open>
  A graph with one vertex; the straight road of 1000 m as one segment and as ten segments
  of 100 m, with the graphs the builder returns for them; a road of one 100 m segment.
\<close>

definition one_vertex_graph :: graph where
  "one_vertex_graph = \<lparr>vertices = [(30, 40)], edges = []\<rparr>"

definition straight_road :: "road_geom list" where
  "straight_road = [LineString [(0, 0), (1000, 0)]]"

definition split_road :: "road_geom list" where
  "split_road = [LineString [(0, 0), (100, 0), (200, 0), (300, 0), (400, 0), (500, 0),
                             (600, 0), (700, 0), (800, 0), (900, 0), (1000, 0)]]"

definition straight_graph :: graph where
  "straight_graph = \<lparr>vertices = [(0, 0), (1000, 0)],
                      edges = [\<lparr>fromVertex = 0, toVertex = 1, cost = 1000\<rparr>]\<rparr>"

definition split_graph :: graph where
  "split_graph =
     \<lparr>vertices = [(0, 0), (100, 0), (200, 0), (300, 0), (400, 0), (500, 0),
                  (600, 0), (700, 0), (800, 0), (900, 0), (1000, 0)],
      edges = [\<lparr>fromVertex = 0, toVertex = 1, cost = 100\<rparr>,
               \<lparr>fromVertex = 1, toVertex = 2, cost = 100\<rparr>,
               \<lparr>fromVertex = 2, toVertex = 3, cost = 100\<rparr>,
               \<lparr>fromVertex = 3, toVertex = 4, cost = 100\<rparr>,
               \<lparr>fromVertex = 4, toVertex = 5, cost = 100\<rparr>,
               \<lparr>fromVertex = 5, toVertex = 6, cost = 100\<rparr>,
               \<lparr>fromVertex = 6, toVertex = 7, cost = 100\<rparr>,
               \<lparr>fromVertex = 7, toVertex = 8, cost = 100\<rparr>,
               \<lparr>fromVertex = 8, toVertex = 9, cost = 100\<rparr>,
               \<lparr>fromVertex = 9, toVertex = 10, cost = 100\<rparr>]\<rparr>"

definition short_graph :: graph where
  "short_graph = \<lparr>vertices = [(0, 0), (100, 0)],
                   edges = [\<lparr>fromVertex = 0, toVertex = 1, cost = 100\<rparr>]\<rparr>"

section \<open>Properties of the graph builder\<close>

lemma builder_inv_init: "builder_inv init_builder"
  by (simp add: builder_inv_def init_builder_def empty_graph_def graph_ok_def)

lemma register_vertex_inv:
  assumes "builder_inv st"
  shows "builder_inv (register_vertex st p)"
proof (cases "p \<in> dom (vertex_map st)")
  case True
  then show ?thesis using assms by (simp add: register_vertex_def)
next
  case False
  let ?vs = "vertices (builder st)"
  let ?st' = "\<lparr>vertex_map = (vertex_map st)(p \<mapsto> vertex_id_counter st),
      vertex_id_counter = vertex_id_counter st + 1,
      builder = addVertex (builder st) p\<rparr>"
  from assms False have notin: "p \<notin> set ?vs" by (simp add: builder_inv_def)
  have reg: "register_vertex st p = ?st'"
    using False by (simp add: register_vertex_def)
  have vs': "vertices (addVertex (builder st) p) = ?vs @ [p]" by (simp add: addVertex_def)
  have 1: "distinct (vertices (builder ?st'))"
    using assms notin by (simp add: vs' builder_inv_def)
  have 2: "vertex_id_counter ?st' = length (vertices (builder ?st'))"
    using assms by (simp add: vs' builder_inv_def)
  have 3: "dom (vertex_map ?st') = set (vertices (builder ?st'))"
    using assms by (simp add: vs' builder_inv_def)
  have 4: "\<forall>q i. vertex_map ?st' q = Some i \<longrightarrow>
      i < length (vertices (builder ?st')) \<and> vertices (builder ?st') ! i = q"
  proof (intro allI impI)
    fix q i
    assume h: "vertex_map ?st' q = Some i"
    show "i < length (vertices (builder ?st')) \<and> vertices (builder ?st') ! i = q"
    proof (cases "q = p")
      case True
      then show ?thesis using h assms by (simp add: vs' builder_inv_def)
    next
      case False
      with h have "vertex_map st q = Some i" by simp
      with assms have "i < length ?vs \<and> ?vs ! i = q"
        unfolding builder_inv_def by blast
      then show ?thesis by (simp add: vs' nth_append)
    qed
  qed
  have 5: "graph_ok (builder ?st')"
    using assms by (auto simp: builder_inv_def graph_ok_def addVertex_def list_all_iff)
  show ?thesis
    unfolding reg builder_inv_def using 1 2 3 4 5 by blast
qed

lemma register_vertex_set:
  assumes "builder_inv st"
  shows "set (vertices (builder (register_vertex st p))) = insert p (set (vertices (builder st)))"
  using assms by (auto simp: register_vertex_def builder_inv_def addVertex_def)

lemma add_segment_ok:
  assumes "builder_inv st"
  shows "\<exists>st'. add_segment st p1 p2 = Inr st' \<and> builder_inv st' \<and>
           set (vertices (builder st')) = {p1, p2} \<union> set (vertices (builder st))"
proof -
  let ?st1 = "register_vertex st p1"
  let ?st2 = "register_vertex ?st1 p2"
  have i1: "builder_inv ?st1" using assms by (rule register_vertex_inv)
  have i2: "builder_inv ?st2" using i1 by (rule register_vertex_inv)
  have s2: "set (vertices (builder ?st2)) = {p1, p2} \<union> set (vertices (builder st))"
    using register_vertex_set[OF i1, of p2] register_vertex_set[OF assms, of p1] by auto
  have "p1 \<in> dom (vertex_map ?st2)" "p2 \<in> dom (vertex_map ?st2)"
    using i2 s2 by (auto simp: builder_inv_def)
  then obtain id1 id2 where ids: "vertex_map ?st2 p1 = Some id1" "vertex_map ?st2 p2 = Some id2"
    by auto
  have lt: "id1 < length (vertices (builder ?st2))" "id2 < length (vertices (builder ?st2))"
    using i2 ids unfolding builder_inv_def by blast+
  let ?st' = "?st2\<lparr>builder := addEdge (builder ?st2) id1 id2 (segment_length p1 p2)\<rparr>"
  have res: "add_segment st p1 p2 = Inr ?st'"
    using ids by (simp add: add_segment_def Let_def)
  have "builder_inv ?st'"
    using i2 lt by (simp add: builder_inv_def addEdge_def graph_ok_def)
  moreover have "set (vertices (builder ?st')) = {p1, p2} \<union> set (vertices (builder st))"
    using s2 by (simp add: addEdge_def)
  ultimately show ?thesis using res by blast
qed

lemma line_endpoints_simps:
  "line_endpoints [] = {}"
  "line_endpoints [p] = {}"
  "line_endpoints (p1 # p2 # ps) = {p1, p2} \<union> line_endpoints (p2 # ps)"
  by (auto simp: line_endpoints_def line_segments_def)

lemma add_line_ok:
  assumes "builder_inv st"
  shows "\<exists>st'. add_line st l = Inr st' \<and> builder_inv st' \<and>
           set (vertices (builder st')) = set (vertices (builder st)) \<union> line_endpoints l"
  using assms
proof (induction st l rule: add_line.induct)
  case (1 st p1 p2 ps)
  from add_segment_ok[OF "1.prems", of p1 p2] obtain st1 where
    s1: "add_segment st p1 p2 = Inr st1" "builder_inv st1"
        "set (vertices (builder st1)) = {p1, p2} \<union> set (vertices (builder st))"
    by blast
  from "1.IH"[OF s1(1) s1(2)] obtain st' where
    s2: "add_line st1 (p2 # ps) = Inr st'" "builder_inv st'"
        "set (vertices (builder st')) = set (vertices (builder st1)) \<union> line_endpoints (p2 # ps)"
    by blast
  show ?case using s1 s2 by (auto simp: line_endpoints_simps)
qed (simp_all add: line_endpoints_simps)

lemma add_lines_ok:
  assumes "builder_inv st"
  shows "\<exists>st'. add_lines st ls = Inr st' \<and> builder_inv st' \<and>
           set (vertices (builder st')) = set (vertices (builder st)) \<union> (\<Union>l \<in> set ls. line_endpoints l)"
  using assms
proof (induction ls arbitrary: st)
  case Nil
  then show ?case by simp
next
  case (Cons l ls)
  from add_line_ok[OF Cons.prems, of l] obtain st1 where
    s1: "add_line st l = Inr st1" "builder_inv st1"
        "set (vertices (builder st1)) = set (vertices (builder st)) \<union> line_endpoints l"
    by blast
  from Cons.IH[OF s1(2)] obtain st' where
    s2: "add_lines st1 ls = Inr st'" "builder_inv st'"
        "set (vertices (builder st')) = set (vertices (builder st1)) \<union> (\<Union>l \<in> set ls. line_endpoints l)"
    by blast
  show ?case using s1 s2 by auto
qed

lemma add_feature_ok:
  assumes "builder_inv st" "supported f"
  shows "\<exists>st'. add_feature st f = Inr st' \<and> builder_inv st' \<and>
           set (vertices (builder st')) = set (vertices (builder st)) \<union> (\<Union>l \<in> set (geom_lines f). line_endpoints l)"
proof (cases f)
  case EmptyGeometry
  then show ?thesis using assms by simp
next
  case (LineString l)
  then show ?thesis using add_lines_ok[OF assms(1), of "[l]"] by simp
next
  case (MultiLineString ls)
  then show ?thesis using add_lines_ok[OF assms(1), of ls] by simp
next
  case (OtherGeometry t)
  then show ?thesis using assms by simp
qed

lemma add_features_ok:
  assumes "builder_inv st" "list_all supported roads"
  shows "\<exists>st'. add_features st roads = Inr st' \<and> builder_inv st' \<and>
           set (vertices (builder st')) = set (vertices (builder st)) \<union> segment_endpoints roads"
  using assms
proof (induction roads arbitrary: st)
  case Nil
  then show ?case by (simp add: segment_endpoints_def)
next
  case (Cons f fs)
  from Cons.prems have sup: "supported f" "list_all supported fs" by simp_all
  from add_feature_ok[OF Cons.prems(1) sup(1)] obtain st1 where
    s1: "add_feature st f = Inr st1" "builder_inv st1"
        "set (vertices (builder st1)) = set (vertices (builder st)) \<union> (\<Union>l \<in> set (geom_lines f). line_endpoints l)"
    by blast
  from Cons.IH[OF s1(2) sup(2)] obtain st' where
    s2: "add_features st1 fs = Inr st'" "builder_inv st'"
        "set (vertices (builder st')) = set (vertices (builder st1)) \<union> segment_endpoints fs"
    by blast
  show ?case using s1 s2 by (auto simp: segment_endpoints_def)
qed

lemma add_features_unsupported:
  assumes "\<not> list_all supported roads"
  shows "\<exists>e. add_features st roads = Inl e"
  using assms
proof (induction roads arbitrary: st)
  case Nil
  then show ?case by simp
next
  case (Cons f fs)
  then show ?case by (cases "add_feature st f"; cases f) auto
qed

text \<open>Every graph the builder returns joins existing vertices.\<close>

lemma extract_road_nodes_graph_ok:
  assumes "extract_road_nodes roads = Inr g"
  shows "graph_ok g"
proof -
  have sup: "list_all supported roads"
  proof (rule ccontr)
    assume "\<not> list_all supported roads"
    from add_features_unsupported[OF this, of init_builder] assms show False
      by (auto simp: extract_road_nodes_def)
  qed
  from add_features_ok[OF builder_inv_init sup] obtain st where
    "add_features init_builder roads = Inr st" "builder_inv st" by blast
  with assms show ?thesis by (auto simp: extract_road_nodes_def builder_inv_def)
qed

text \<open>
  C7.  Vertex de-duplication: when every feature is empty, a polyline or a
  multi-polyline, the builder returns a graph whose vertices are exactly the coordinates
  that occur as an endpoint of some segment of the input, and every such coordinate is
  the point of exactly one vertex id; coordinates are compared exactly.
\<close>

theorem vertex_deduplication:
  assumes "list_all supported roads"
  shows "\<exists>g. extract_road_nodes roads = Inr g \<and>
           set (vertices g) = segment_endpoints roads \<and>
           (\<forall>p \<in> segment_endpoints roads. \<exists>!i. i < vertexCount g \<and> vertices g ! i = p)"
proof -
  from add_features_ok[OF builder_inv_init assms] obtain st where
    st: "add_features init_builder roads = Inr st" "builder_inv st"
        "set (vertices (builder st)) = set (vertices (builder init_builder)) \<union> segment_endpoints roads"
    by blast
  have g: "extract_road_nodes roads = Inr (builder st)"
    using st(1) by (simp add: extract_road_nodes_def)
  have s: "set (vertices (builder st)) = segment_endpoints roads"
    using st(3) by (simp add: init_builder_def empty_graph_def)
  have d: "distinct (vertices (builder st))"
    using st(2) by (simp add: builder_inv_def)
  have "\<forall>p \<in> segment_endpoints roads. \<exists>!i. i < vertexCount (builder st) \<and> vertices (builder st) ! i = p"
    using d s by (auto simp: vertexCount_def distinct_Ex1)
  then show ?thesis using g s by blast
qed

text \<open>
  Two polylines that share the endpoint \<open>(1, 0)\<close>: one vertex at that coordinate.
\<close>

theorem vertex_deduplication_witness:
  "list_all supported shared_endpoint_roads \<and>
   (\<exists>g. extract_road_nodes shared_endpoint_roads = Inr g \<and>
           set (vertices g) = {(0, 0), (1, 0), (1, 1)} \<and>
           (\<exists>!i. i < vertexCount g \<and> vertices g ! i = (1, 0)))"
proof -
  have sup: "list_all supported shared_endpoint_roads"
    by (simp add: shared_endpoint_roads_def)
  have ep: "segment_endpoints shared_endpoint_roads = {(0, 0), (1, 0), (1, 1)}"
    by (auto simp: shared_endpoint_roads_def segment_endpoints_def line_endpoints_simps)
  from vertex_deduplication[OF sup] ep sup show ?thesis by auto
qed

lemma segment_length_345: "segment_length (0, 0) (3, 4) = 5"
proof -
  have "sqrt 25 = sqrt (5\<^sup>2)" by simp
  then show ?thesis by (simp add: segment_length_def del: real_sqrt_four)
qed

text \<open>
  C8.  Weight correctness: the single polyline from \<open>(0, 0)\<close> to \<open>(3, 4)\<close> gives a graph
  with two vertices and exactly one edge, of weight 5.
\<close>

theorem weight_correctness:
  "extract_road_nodes [LineString [(0, 0), (3, 4)]] =
     Inr \<lparr>vertices = [(0, 0), (3, 4)],
          edges = [\<lparr>fromVertex = 0, toVertex = 1, cost = 5\<rparr>]\<rparr>"
  by (simp add: extract_road_nodes_def init_builder_def empty_graph_def add_segment_def
      register_vertex_def addVertex_def addEdge_def segment_length_345 Let_def)

section \<open>Properties of the nearest-node lookup\<close>

lemma fold_max_Infinity:
  "fold (\<lambda>y m. if float_less m y then y else m) xs Infinity = Infinity"
  by (induction xs) auto

lemma fold_max_in:
  "fold (\<lambda>y m. if float_less m y then y else m) xs x \<in> set (x # xs)"
proof (induction xs arbitrary: x)
  case Nil
  then show ?case by simp
next
  case (Cons y ys)
  show ?case using Cons[of y] Cons[of x] by auto
qed

lemma fold_max_reaches_Infinity:
  "Infinity \<in> set xs \<Longrightarrow> fold (\<lambda>y m. if float_less m y then y else m) xs x = Infinity"
proof (induction xs arbitrary: x)
  case Nil
  then show ?case by simp
next
  case (Cons y ys)
  show ?case
  proof (cases "y = Infinity")
    case True
    then show ?thesis by (cases x) (simp_all add: fold_max_Infinity)
  next
    case False
    with Cons.prems have "Infinity \<in> set ys" by simp
    then show ?thesis using Cons.IH by simp
  qed
qed

lemma py_max_Infinity: "Infinity \<in> set xs \<Longrightarrow> py_max xs = Inr Infinity"
proof (cases xs)
  case Nil
  assume "Infinity \<in> set xs"
  with Nil show ?thesis by simp
next
  case (Cons x ys)
  assume inf: "Infinity \<in> set xs"
  show ?thesis
  proof (cases "x = Infinity")
    case True
    with Cons show ?thesis by (simp add: fold_max_Infinity)
  next
    case False
    with inf Cons have "Infinity \<in> set ys" by simp
    with Cons show ?thesis by (simp add: fold_max_reaches_Infinity)
  qed
qed

lemma py_max_in: "xs \<noteq> [] \<Longrightarrow> \<exists>m. py_max xs = Inr m \<and> m \<in> set xs"
  using fold_max_in by (cases xs) auto

lemma py_index_in: "v \<in> set xs \<Longrightarrow> \<exists>i. py_index xs v = Inr i \<and> i < length xs"
  by (induction xs) auto

lemma py_index_first_Infinity:
  "py_index (map Finite ds @ replicate (Suc m) Infinity) Infinity = Inr (length ds)"
  by (induction ds) auto

lemma scan_vertex_lengths:
  assumes "nearest ns \<noteq> []"
  shows "\<exists>ns'. scan_vertex point ns v = Inr ns' \<and>
           length (nearest ns') = length (nearest ns) \<and>
           length (nearest_points ns') = length (nearest_points ns)"
proof -
  from py_max_in[OF assms] obtain m where m: "py_max (nearest ns) = Inr m" "m \<in> set (nearest ns)"
    by blast
  from py_index_in[OF m(2)] obtain i where i: "py_index (nearest ns) m = Inr i" by blast
  show ?thesis using m(1) i by (simp add: scan_vertex_def Let_def)
qed

lemma scan_vertices_lengths:
  assumes "nearest ns \<noteq> []"
  shows "\<exists>ns'. scan_vertices point ns vs = Inr ns' \<and>
           length (nearest ns') = length (nearest ns) \<and>
           length (nearest_points ns') = length (nearest_points ns)"
  using assms
proof (induction vs arbitrary: ns)
  case Nil
  then show ?case by simp
next
  case (Cons v vs)
  from scan_vertex_lengths[OF Cons.prems, of point v] obtain ns1 where
    s1: "scan_vertex point ns v = Inr ns1" "length (nearest ns1) = length (nearest ns)"
        "length (nearest_points ns1) = length (nearest_points ns)" by blast
  from s1(2) Cons.prems have "nearest ns1 \<noteq> []" by auto
  from Cons.IH[OF this] s1 show ?case by auto
qed

text \<open>While a slot still holds infinity, the next vertex goes into the first such slot.\<close>

lemma scan_vertex_fill:
  "scan_vertex point
     \<lparr>nearest = map Finite ds @ replicate (Suc m) Infinity,
      nearest_points = filled @ replicate (Suc m) point\<rparr> v =
   Inr \<lparr>nearest = map Finite (ds @ [calculate_meter point v]) @ replicate m Infinity,
        nearest_points = (filled @ [v]) @ replicate m point\<rparr>"
  if "length filled = length ds"
proof -
  have mx: "py_max (map Finite ds @ replicate (Suc m) Infinity) = Inr Infinity"
    by (rule py_max_Infinity) simp
  have u1: "(map Finite ds @ replicate (Suc m) Infinity)[length ds := Finite x] =
        map Finite (ds @ [x]) @ replicate m Infinity" for x
    by (simp add: list_update_append)
  have u2: "(filled @ replicate (Suc m) point)[length ds := v] = (filled @ [v]) @ replicate m point"
    using that by (simp add: list_update_append)
  show ?thesis
    unfolding scan_vertex_def Let_def
    by (simp only: nearest_state.simps mx sum.case float_less.simps if_True
        py_index_first_Infinity u1 u2)
qed

lemma scan_vertices_fill:
  assumes "length filled = length ds"
  shows "scan_vertices point
     \<lparr>nearest = map Finite ds @ replicate (length vs + m) Infinity,
      nearest_points = filled @ replicate (length vs + m) point\<rparr> vs =
   Inr \<lparr>nearest = map Finite (ds @ map (calculate_meter point) vs) @ replicate m Infinity,
        nearest_points = (filled @ vs) @ replicate m point\<rparr>"
  using assms
proof (induction vs arbitrary: filled ds)
  case Nil
  then show ?case by simp
next
  case (Cons v vs)
  have len: "length (filled @ [v]) = length (ds @ [calculate_meter point v])"
    using Cons.prems by simp
  have "scan_vertex point
     \<lparr>nearest = map Finite ds @ replicate (Suc (length vs + m)) Infinity,
      nearest_points = filled @ replicate (Suc (length vs + m)) point\<rparr> v =
   Inr \<lparr>nearest = map Finite (ds @ [calculate_meter point v]) @ replicate (length vs + m) Infinity,
        nearest_points = (filled @ [v]) @ replicate (length vs + m) point\<rparr>"
    using Cons.prems by (rule scan_vertex_fill)
  then show ?case using Cons.IH[OF len] by simp
qed

text \<open>
  C9.  Seed degradation: for \<open>k \<ge> 1\<close> the nearest-node lookup returns, without raising, a
  list of exactly \<open>k\<close> coordinates; when the graph has at most \<open>k\<close> vertices the list is
  the graph's vertices followed by copies of the query point in the remaining slots.
\<close>

theorem seed_degradation:
  assumes "0 < k"
  shows "\<exists>ps. nearest_point node_graph point k = Inr ps \<and> length ps = k \<and>
           (vertexCount node_graph \<le> k \<longrightarrow>
              ps = vertices node_graph @ replicate (k - vertexCount node_graph) point)"
proof -
  let ?init = "\<lparr>nearest = replicate k Infinity, nearest_points = replicate k point\<rparr>"
  have "nearest ?init \<noteq> []" using assms by simp
  from scan_vertices_lengths[OF this, of point "vertices node_graph"] obtain ns where
    ns: "scan_vertices point ?init (vertices node_graph) = Inr ns"
        "length (nearest_points ns) = k" by auto
  have res: "nearest_point node_graph point k = Inr (nearest_points ns)"
    using ns(1) by (simp add: nearest_point_def)
  have "nearest_points ns = vertices node_graph @ replicate (k - vertexCount node_graph) point"
    if le: "vertexCount node_graph \<le> k"
  proof -
    let ?vs = "vertices node_graph"
    from le have k: "k = length ?vs + (k - length ?vs)" by (simp add: vertexCount_def)
    have "scan_vertices point
       \<lparr>nearest = map Finite [] @ replicate (length ?vs + (k - length ?vs)) Infinity,
        nearest_points = [] @ replicate (length ?vs + (k - length ?vs)) point\<rparr> ?vs =
     Inr \<lparr>nearest = map Finite ([] @ map (calculate_meter point) ?vs) @ replicate (k - length ?vs) Infinity,
          nearest_points = ([] @ ?vs) @ replicate (k - length ?vs) point\<rparr>"
      by (rule scan_vertices_fill) simp
    with k have "scan_vertices point ?init ?vs =
      Inr \<lparr>nearest = map Finite (map (calculate_meter point) ?vs) @ replicate (k - length ?vs) Infinity,
          nearest_points = ?vs @ replicate (k - length ?vs) point\<rparr>"
      by simp
    with ns(1) show ?thesis by (auto simp: vertexCount_def)
  qed
  with res ns(2) show ?thesis by blast
qed

text \<open>
  A graph with one vertex and \<open>k = 3\<close>: two of the three coordinates are the query point.
\<close>

theorem seed_degradation_witness:
  "(0::nat) < 3 \<and> nearest_point one_vertex_graph (0, 0) 3 = Inr [(30, 40), (0, 0), (0, 0)]"
proof -
  have "(0::nat) < 3" by simp
  from seed_degradation[OF this, of one_vertex_graph "(0, 0)"]
  show ?thesis by (auto simp: one_vertex_graph_def vertexCount_def numeral_3_eq_3)
qed

section \<open>The search loop: effect of one turn, termination\<close>

lemma relax_effect:
  assumes "relax maxd bd st s t nx nd = Inr st'"
  shows "searched_list st' = searched_list st \<and>
         (st' = st \<or>
          (nd \<le> maxd \<and> maxd \<noteq> 0 \<and>
           priority_queue st' = priority_queue st @ [(nd, nx)] \<and>
           searched_roads st' = searched_roads st @
             [\<lparr>line_start = s, line_end = t, buff = buffer_width bd maxd nd\<rparr>]))"
  using assms by (auto simp: relax_def heappush_def Let_def split: if_splits)

lemma vertex_point_in:
  "vertex_point g i = Inr p \<Longrightarrow> p \<in> set (vertices g)"
  by (auto simp: vertex_point_def split: if_splits)

lemma visit_edge_effect:
  assumes "visit_edge g maxd bd cd cn st e = Inr st'"
  shows "searched_list st' = searched_list st \<and>
         (st' = st \<or>
          (\<exists>nx s t. nx \<in> set (vertices g) \<and> cd + cost e \<le> maxd \<and> maxd \<noteq> 0 \<and>
             priority_queue st' = priority_queue st @ [(cd + cost e, nx)] \<and>
             searched_roads st' = searched_roads st @
               [\<lparr>line_start = s, line_end = t, buff = buffer_width bd maxd (cd + cost e)\<rparr>]))"
proof -
  from assms obtain s t where
    s: "vertex_point g (fromVertex e) = Inr s" and t: "vertex_point g (toVertex e) = Inr t"
    by (auto simp: visit_edge_def split: sum.splits)
  have sin: "s \<in> set (vertices g)" and tin: "t \<in> set (vertices g)"
    using s t by (auto dest: vertex_point_in)
  consider (fwd) "cn = s" "relax maxd bd st s t t (cd + cost e) = Inr st'"
    | (bwd) "cn \<noteq> s" "cn = t" "relax maxd bd st s t s (cd + cost e) = Inr st'"
    | (skip) "st' = st"
    using assms s t by (auto simp: visit_edge_def split: if_splits)
  then show ?thesis
  proof cases
    case fwd
    from relax_effect[OF fwd(2)] tin show ?thesis by blast
  next
    case bwd
    from relax_effect[OF bwd(3)] sin show ?thesis by blast
  next
    case skip
    then show ?thesis by simp
  qed
qed

lemma visit_edges_effect:
  assumes "visit_edges g maxd bd cd cn st es = Inr st'"
  shows "searched_list st' = searched_list st \<and>
         (\<exists>pushed emitted.
            priority_queue st' = priority_queue st @ pushed \<and>
            searched_roads st' = searched_roads st @ emitted \<and>
            (pushed \<noteq> [] \<longrightarrow> maxd \<noteq> 0) \<and>
            (\<forall>x \<in> set pushed. snd x \<in> set (vertices g) \<and> fst x \<le> maxd \<and>
                 (\<exists>e \<in> set es. fst x = cd + cost e)) \<and>
            (\<forall>b \<in> set emitted. \<exists>e \<in> set es. cd + cost e \<le> maxd \<and>
                 buff b = buffer_width bd maxd (cd + cost e)))"
  using assms
proof (induction es arbitrary: st)
  case Nil
  then show ?case by simp
next
  case (Cons e es)
  from Cons.prems obtain st1 where
    e1: "visit_edge g maxd bd cd cn st e = Inr st1" and
    r1: "visit_edges g maxd bd cd cn st1 es = Inr st'"
    by (auto split: sum.splits)
  from Cons.IH[OF r1] obtain pushed emitted where
    ih: "searched_list st' = searched_list st1"
        "priority_queue st' = priority_queue st1 @ pushed"
        "searched_roads st' = searched_roads st1 @ emitted"
        "pushed \<noteq> [] \<longrightarrow> maxd \<noteq> 0"
        "\<forall>x \<in> set pushed. snd x \<in> set (vertices g) \<and> fst x \<le> maxd \<and>
                 (\<exists>e \<in> set es. fst x = cd + cost e)"
        "\<forall>b \<in> set emitted. \<exists>e \<in> set es. cd + cost e \<le> maxd \<and>
                 buff b = buffer_width bd maxd (cd + cost e)"
    by blast
  from visit_edge_effect[OF e1] have sl: "searched_list st1 = searched_list st" by simp
  from visit_edge_effect[OF e1] consider (same) "st1 = st"
    | (push) nx s t where "nx \<in> set (vertices g)" "cd + cost e \<le> maxd" "maxd \<noteq> 0"
        "priority_queue st1 = priority_queue st @ [(cd + cost e, nx)]"
        "searched_roads st1 = searched_roads st @
               [\<lparr>line_start = s, line_end = t, buff = buffer_width bd maxd (cd + cost e)\<rparr>]"
    by blast
  then show ?case
  proof cases
    case same
    show ?thesis
      apply (rule conjI)
       apply (simp add: ih(1) sl)
      apply (rule exI[of _ pushed], rule exI[of _ emitted])
      using ih same by auto
  next
    case push
    let ?b = "\<lparr>line_start = s, line_end = t, buff = buffer_width bd maxd (cd + cost e)\<rparr>"
    show ?thesis
      apply (rule conjI)
       apply (simp add: ih(1) sl)
      apply (rule exI[of _ "(cd + cost e, nx) # pushed"], rule exI[of _ "?b # emitted"])
      using ih push by auto
  qed
qed

lemma loop_body_cases [consumes 1, case_names visited over nofind expand]:
  assumes "loop_body g maxd bd st = Inr st'"
  obtains
    d c where "priority_queue st \<noteq> []" "Min (set (priority_queue st)) = (d, c)"
      "Tuple c \<in> searched_list st"
      "st' = st\<lparr>priority_queue := remove1 (d, c) (priority_queue st)\<rparr>"
  | d c where "priority_queue st \<noteq> []" "Min (set (priority_queue st)) = (d, c)"
      "Tuple c \<notin> searched_list st" "d > maxd"
      "st' = st\<lparr>priority_queue := remove1 (d, c) (priority_queue st),
                 searched_list := insert (Tuple c) (searched_list st)\<rparr>"
  | d c where "priority_queue st \<noteq> []" "Min (set (priority_queue st)) = (d, c)"
      "Tuple c \<notin> searched_list st" "d \<le> maxd" "findVertex g c = None"
      "st' = st\<lparr>priority_queue := remove1 (d, c) (priority_queue st),
                 searched_list := insert (Tuple c) (searched_list st)\<rparr>"
  | d c v where "priority_queue st \<noteq> []" "Min (set (priority_queue st)) = (d, c)"
      "Tuple c \<notin> searched_list st" "d \<le> maxd" "findVertex g c = Some v"
      "visit_edges g maxd bd d c
         (st\<lparr>priority_queue := remove1 (d, c) (priority_queue st),
             searched_list := insert (Tuple c) (searched_list st)\<rparr>)
         (outgoingEdges g v @ incomingEdges g v) = Inr st'"
proof -
  from assms have ne: "priority_queue st \<noteq> []"
    by (auto simp: loop_body_def heappop_def split: if_splits)
  obtain d c where m: "Min (set (priority_queue st)) = (d, c)"
    by (cases "Min (set (priority_queue st))") auto
  show thesis
  proof (cases "Tuple c \<in> searched_list st")
    case True
    with assms ne m have "st' = st\<lparr>priority_queue := remove1 (d, c) (priority_queue st)\<rparr>"
      by (simp add: loop_body_def heappop_def)
    with ne m True show ?thesis by (rule that(1))
  next
    case nv: False
    show ?thesis
    proof (cases "d > maxd")
      case True
      with assms ne m nv have "st' = st\<lparr>priority_queue := remove1 (d, c) (priority_queue st),
                 searched_list := insert (Tuple c) (searched_list st)\<rparr>"
        by (simp add: loop_body_def heappop_def Let_def)
      with ne m nv True show ?thesis by (rule that(2))
    next
      case False
      then have le: "d \<le> maxd" by simp
      show ?thesis
      proof (cases "findVertex g c")
        case None
        with assms ne m nv le have "st' = st\<lparr>priority_queue := remove1 (d, c) (priority_queue st),
                 searched_list := insert (Tuple c) (searched_list st)\<rparr>"
          by (simp add: loop_body_def heappop_def Let_def)
        with ne m nv le None show ?thesis by (rule that(3))
      next
        case (Some v)
        with assms ne m nv le have "visit_edges g maxd bd d c
         (st\<lparr>priority_queue := remove1 (d, c) (priority_queue st),
             searched_list := insert (Tuple c) (searched_list st)\<rparr>)
         (outgoingEdges g v @ incomingEdges g v) = Inr st'"
          by (simp add: loop_body_def heappop_def Let_def)
        with ne m nv le Some show ?thesis by (rule that(4))
      qed
    qed
  qed
qed


lemma finite_unvisited: "finite (unvisited g st)"
  by (simp add: unvisited_def)

lemma Min_queue_in:
  assumes "q \<noteq> []" "Min (set q) = (d, c)"
  shows "(d, c) \<in> set q"
  using assms Min_in[of "set q"] by simp

lemma unvisited_visit:
  assumes "(d, c) \<in> set (priority_queue st)" "Tuple c \<notin> searched_list st"
    "searched_list st' = insert (Tuple c) (searched_list st)"
    "snd ` set (priority_queue st') \<subseteq> snd ` set (priority_queue st) \<union> set (vertices g)"
  shows "card (unvisited g st') < card (unvisited g st)"
proof -
  have "c \<in> unvisited g st"
    using assms(1,2) by (force simp: unvisited_def)
  moreover have "c \<notin> unvisited g st'"
    using assms(3) by (simp add: unvisited_def)
  moreover have "unvisited g st' \<subseteq> unvisited g st"
    using assms(3,4) by (auto simp: unvisited_def)
  ultimately have "unvisited g st' \<subset> unvisited g st" by blast
  then show ?thesis by (simp add: finite_unvisited psubset_card_mono)
qed

lemma loop_body_decreases:
  assumes "loop_body g maxd bd st = Inr st'"
  shows "card (unvisited g st') < card (unvisited g st) \<or>
         (card (unvisited g st') = card (unvisited g st) \<and>
          length (priority_queue st') < length (priority_queue st))"
  using assms
proof (cases rule: loop_body_cases)
  case (visited d c)
  have mem: "(d, c) \<in> set (priority_queue st)"
    using visited(1,2) by (rule Min_queue_in)
  have "unvisited g st' = unvisited g st"
  proof -
    have "c \<notin> unvisited g st" using visited(3) by (simp add: unvisited_def)
    moreover have "snd ` set (priority_queue st) = insert c (snd ` set (remove1 (d, c) (priority_queue st)))"
    proof -
      have "set (priority_queue st) = insert (d, c) (set (remove1 (d, c) (priority_queue st)))"
      proof (rule set_eqI)
        fix y
        show "y \<in> set (priority_queue st) \<longleftrightarrow>
              y \<in> insert (d, c) (set (remove1 (d, c) (priority_queue st)))"
        proof (cases "y = (d, c)")
          case True
          then show ?thesis using mem by simp
        next
          case False
          then show ?thesis by (simp add: in_set_remove1)
        qed
      qed
      then have "snd ` set (priority_queue st) = snd ` insert (d, c) (set (remove1 (d, c) (priority_queue st)))"
        by simp
      then show ?thesis by simp
    qed
    ultimately show ?thesis using visited(3,4) by (auto simp: unvisited_def)
  qed
  moreover have "length (priority_queue st') < length (priority_queue st)"
    using mem visited(1,4) by (simp add: length_remove1)
  ultimately show ?thesis by simp
next
  case (over d c)
  have mem: "(d, c) \<in> set (priority_queue st)"
    using over(1,2) by (rule Min_queue_in)
  have "snd ` set (priority_queue st') \<subseteq> snd ` set (priority_queue st) \<union> set (vertices g)"
    using over(5) set_remove1_subset[of "(d, c)" "priority_queue st"] by auto
  with mem over(3,5) show ?thesis
    using unvisited_visit[of d c st st' g] by simp
next
  case (nofind d c)
  have mem: "(d, c) \<in> set (priority_queue st)"
    using nofind(1,2) by (rule Min_queue_in)
  have "snd ` set (priority_queue st') \<subseteq> snd ` set (priority_queue st) \<union> set (vertices g)"
    using nofind(6) set_remove1_subset[of "(d, c)" "priority_queue st"] by auto
  with mem nofind(3,6) show ?thesis
    using unvisited_visit[of d c st st' g] by simp
next
  case (expand d c v)
  have mem: "(d, c) \<in> set (priority_queue st)"
    using expand(1,2) by (rule Min_queue_in)
  from visit_edges_effect[OF expand(6)] obtain pushed where
    sl: "searched_list st' = insert (Tuple c) (searched_list st)" and
    q: "priority_queue st' = remove1 (d, c) (priority_queue st) @ pushed" and
    pv: "\<forall>x \<in> set pushed. snd x \<in> set (vertices g)"
    by auto
  have "snd ` set (priority_queue st') \<subseteq> snd ` set (priority_queue st) \<union> set (vertices g)"
    using q pv set_remove1_subset[of "(d, c)" "priority_queue st"] by auto
  with mem expand(3) sl show ?thesis
    using unvisited_visit[of d c st st' g] by simp
qed

termination dijkstra_loop
proof (relation "inv_image (less_than <*lex*> less_than)
    (\<lambda>(g, maxd, bd, st). (card (unvisited g st), length (priority_queue st)))", goal_cases)
  case 1
  show ?case by (intro wf_inv_image wf_lex_prod wf_less_than)
next
  case (2 st graph max_distance buffer_distance st')
  from loop_body_decreases[OF 2(2)] show ?case by auto
qed

declare dijkstra_loop.simps [simp del]

section \<open>Properties of the search\<close>

text \<open>Facts about the scenario graphs, and the first two pops on the short road.\<close>

lemma graph_ok_split_graph: "graph_ok split_graph"
  by (simp add: graph_ok_def split_graph_def)

lemma positive_weights_split_graph: "positive_weights split_graph"
  by (simp add: positive_weights_def split_graph_def)

lemma graph_ok_straight_graph: "graph_ok straight_graph"
  by (simp add: graph_ok_def straight_graph_def)

lemma no_hop_straight_graph: "no_hop_within_budget straight_graph [(0, 0)] 500"
  by (simp add: no_hop_within_budget_def straight_graph_def findVertex_def
      outgoingEdges_def incomingEdges_def)

lemmas step_defs = loop_body_def heappop_def findVertex_def outgoingEdges_def incomingEdges_def
  visit_edge_def vertex_point_def relax_def heappush_def buffer_width_def Let_def

lemma segment_length_horizontal: "segment_length (a, 0) (b, 0) = \<bar>b - a\<bar>"
  by (simp add: segment_length_def)

lemmas builder_defs = extract_road_nodes_def init_builder_def empty_graph_def add_segment_def
  register_vertex_def addVertex_def addEdge_def Let_def

lemma straight_road_graph: "extract_road_nodes straight_road = Inr straight_graph"
  by (simp add: straight_road_def straight_graph_def builder_defs segment_length_horizontal)

lemma split_road_graph: "extract_road_nodes split_road = Inr split_graph"
  by (simp add: split_road_def split_graph_def builder_defs segment_length_horizontal)

lemma straight_road_search: "dijkstra_roads straight_graph [(0, 0)] 500 200 = Inr []"
  by (simp add: dijkstra_roads_def dijkstra_loop.simps step_defs init_search_def straight_graph_def)

lemma short_graph_search:
  "dijkstra_roads short_graph [(0, 0)] 500 200 =
     Inr [\<lparr>line_start = (0, 0), line_end = (100, 0), buff = 160\<rparr>,
          \<lparr>line_start = (0, 0), line_end = (100, 0), buff = 120\<rparr>]"
  by (simp add: dijkstra_roads_def dijkstra_loop.simps step_defs init_search_def short_graph_def)

lemma split_graph_search:
  "dijkstra_roads split_graph [(0, 0)] 500 200 =
     Inr [\<lparr>line_start = (0, 0), line_end = (100, 0), buff = 160\<rparr>,
          \<lparr>line_start = (100, 0), line_end = (200, 0), buff = 120\<rparr>,
          \<lparr>line_start = (0, 0), line_end = (100, 0), buff = 120\<rparr>,
          \<lparr>line_start = (200, 0), line_end = (300, 0), buff = 80\<rparr>,
          \<lparr>line_start = (100, 0), line_end = (200, 0), buff = 80\<rparr>,
          \<lparr>line_start = (300, 0), line_end = (400, 0), buff = 40\<rparr>,
          \<lparr>line_start = (200, 0), line_end = (300, 0), buff = 40\<rparr>,
          \<lparr>line_start = (400, 0), line_end = (500, 0), buff = 0\<rparr>,
          \<lparr>line_start = (300, 0), line_end = (400, 0), buff = 0\<rparr>]"
  by (simp add: dijkstra_roads_def dijkstra_loop.simps step_defs init_search_def split_graph_def)

lemma pops_1_short_graph:
  "pops 1 short_graph 500 200 (init_search [(0, 0)]) =
     Inr \<lparr>priority_queue = [(100, (100, 0))],
          searched_list = {Tuple (0, 0)},
          searched_roads = [\<lparr>line_start = (0, 0), line_end = (100, 0), buff = 160\<rparr>]\<rparr>"
  by (simp add: step_defs init_search_def short_graph_def)

lemma pops_2_short_graph:
  "pops 2 short_graph 500 200 (init_search [(0, 0)]) =
     Inr \<lparr>priority_queue = [(200, (0, 0))],
          searched_list = {Tuple (100, 0), Tuple (0, 0)},
          searched_roads = [\<lparr>line_start = (0, 0), line_end = (100, 0), buff = 160\<rparr>,
                            \<lparr>line_start = (0, 0), line_end = (100, 0), buff = 120\<rparr>]\<rparr>"
  by (simp add: numeral_2_eq_2 step_defs init_search_def short_graph_def)

lemma incident_edges_subset:
  "set (outgoingEdges g v @ incomingEdges g v) \<subseteq> set (edges g)"
  by (auto simp: outgoingEdges_def incomingEdges_def)

lemma loop_body_queue:
  assumes "loop_body g maxd bd st = Inr st'"
  shows "\<exists>d c pushed. (d, c) \<in> set (priority_queue st) \<and>
           priority_queue st' = remove1 (d, c) (priority_queue st) @ pushed \<and>
           (\<forall>x \<in> set pushed. fst x \<le> maxd \<and> (\<exists>e \<in> set (edges g). fst x = d + cost e))"
  using assms
proof (cases rule: loop_body_cases)
  case (visited d c)
  from visited(1,2) have "(d, c) \<in> set (priority_queue st)" by (rule Min_queue_in)
  with visited(4) show ?thesis by (intro exI[of _ d] exI[of _ c] exI[of _ "[]"]) simp
next
  case (over d c)
  from over(1,2) have "(d, c) \<in> set (priority_queue st)" by (rule Min_queue_in)
  with over(5) show ?thesis by (intro exI[of _ d] exI[of _ c] exI[of _ "[]"]) simp
next
  case (nofind d c)
  from nofind(1,2) have "(d, c) \<in> set (priority_queue st)" by (rule Min_queue_in)
  with nofind(6) show ?thesis by (intro exI[of _ d] exI[of _ c] exI[of _ "[]"]) simp
next
  case (expand d c v)
  from expand(1,2) have mem: "(d, c) \<in> set (priority_queue st)" by (rule Min_queue_in)
  from visit_edges_effect[OF expand(6)] obtain pushed where
    q: "priority_queue st' = remove1 (d, c) (priority_queue st) @ pushed" and
    p: "\<forall>x \<in> set pushed. fst x \<le> maxd \<and>
          (\<exists>e \<in> set (outgoingEdges g v @ incomingEdges g v). fst x = d + cost e)"
    by auto
  from p incident_edges_subset[of g v]
  have "\<forall>x \<in> set pushed. fst x \<le> maxd \<and> (\<exists>e \<in> set (edges g). fst x = d + cost e)"
    by blast
  with mem q show ?thesis by blast
qed

lemma loop_body_within_budget:
  assumes "loop_body g maxd bd st = Inr st'" "within_budget maxd st"
  shows "within_budget maxd st'"
proof -
  from loop_body_queue[OF assms(1)] obtain d c pushed where
    q: "priority_queue st' = remove1 (d, c) (priority_queue st) @ pushed" and
    p: "\<forall>x \<in> set pushed. fst x \<le> maxd"
    by blast
  have "\<forall>x \<in> set (remove1 (d, c) (priority_queue st)). fst x \<le> maxd"
    using assms(2) set_remove1_subset[of "(d, c)" "priority_queue st"]
    by (auto simp: within_budget_def list_all_iff)
  with p q show ?thesis by (auto simp: within_budget_def list_all_iff)
qed

lemma pops_within_budget:
  assumes "pops n g maxd bd st = Inr st'" "within_budget maxd st"
  shows "within_budget maxd st'"
  using assms
proof (induction n arbitrary: st)
  case 0
  then show ?case by simp
next
  case (Suc n)
  from Suc.prems(1) obtain st1 where
    b: "loop_body g maxd bd st = Inr st1" and r: "pops n g maxd bd st1 = Inr st'"
    by (auto split: sum.splits)
  from loop_body_within_budget[OF b Suc.prems(2)] Suc.IH[OF r] show ?case by simp
qed

lemma init_within_budget: "0 \<le> maxd \<Longrightarrow> within_budget maxd (init_search seeds)"
  by (simp add: within_budget_def init_search_def list_all_iff)

lemma within_budget_no_discard:
  assumes "within_budget maxd st"
  shows "\<not> discards_over_budget maxd st"
proof (cases "priority_queue st = []")
  case True
  then show ?thesis by (simp add: discards_over_budget_def heappop_def)
next
  case False
  obtain d c where m: "Min (set (priority_queue st)) = (d, c)"
    by (cases "Min (set (priority_queue st))") auto
  from Min_queue_in[OF False m] assms have "d \<le> maxd"
    by (auto simp: within_budget_def list_all_iff)
  with False m show ?thesis by (simp add: discards_over_budget_def heappop_def)
qed

text \<open>
  C10.  With \<open>max_distance \<ge> 0\<close>, in every state the search reaches after any number of
  pops every queued entry, hence every entry popped next, has a cumulative distance
  within \<open>max_distance\<close>, and the next turn does not take the branch that discards a
  popped entry over the budget.
\<close>

theorem popped_within_budget:
  assumes "0 \<le> max_distance"
    and "pops n graph max_distance buffer_distance (init_search start_points) = Inr st"
  shows "within_budget max_distance st \<and> \<not> discards_over_budget max_distance st"
proof -
  have "within_budget max_distance st"
    using pops_within_budget[OF assms(2) init_within_budget[OF assms(1)]] .
  then show ?thesis using within_budget_no_discard by blast
qed

text \<open>
  The road of one 100 m segment after two pops: the queue holds the entry
  \<open>(200, (0, 0))\<close>, within the budget of 500.
\<close>

theorem popped_within_budget_witness:
  "(0::real) \<le> 500 \<and>
   pops 2 short_graph 500 200 (init_search [(0, 0)]) =
     Inr \<lparr>priority_queue = [(200, (0, 0))],
          searched_list = {Tuple (100, 0), Tuple (0, 0)},
          searched_roads = [\<lparr>line_start = (0, 0), line_end = (100, 0), buff = 160\<rparr>,
                            \<lparr>line_start = (0, 0), line_end = (100, 0), buff = 120\<rparr>]\<rparr> \<and>
   within_budget 500
     \<lparr>priority_queue = [(200, (0, 0))],
      searched_list = {Tuple (100, 0), Tuple (0, 0)},
      searched_roads = [\<lparr>line_start = (0, 0), line_end = (100, 0), buff = 160\<rparr>,
                        \<lparr>line_start = (0, 0), line_end = (100, 0), buff = 120\<rparr>]\<rparr> \<and>
   \<not> discards_over_budget 500
     \<lparr>priority_queue = [(200, (0, 0))],
      searched_list = {Tuple (100, 0), Tuple (0, 0)},
      searched_roads = [\<lparr>line_start = (0, 0), line_end = (100, 0), buff = 160\<rparr>,
                        \<lparr>line_start = (0, 0), line_end = (100, 0), buff = 120\<rparr>]\<rparr>"
proof -
  have b: "(0::real) \<le> 500" by simp
  from popped_within_budget[OF b pops_2_short_graph] b pops_2_short_graph
  show ?thesis by blast
qed


lemma graph_ok_vertex_point:
  assumes "graph_ok g" "e \<in> set (edges g)"
  shows "vertex_point g (fromVertex e) = Inr (vertices g ! fromVertex e)"
    and "vertex_point g (toVertex e) = Inr (vertices g ! toVertex e)"
  using assms by (auto simp: graph_ok_def list_all_iff vertex_point_def)

lemma relax_ok:
  assumes "nd \<le> maxd \<longrightarrow> maxd \<noteq> 0"
  shows "\<exists>st'. relax maxd bd st s t nx nd = Inr st'"
  using assms by (simp add: relax_def Let_def)

lemma visit_edge_ok:
  assumes "graph_ok g" "e \<in> set (edges g)" "cd + cost e \<le> maxd \<longrightarrow> maxd \<noteq> 0"
  shows "\<exists>st'. visit_edge g maxd bd cd cn st e = Inr st'"
proof -
  let ?s = "vertices g ! fromVertex e" and ?t = "vertices g ! toVertex e"
  have unfold: "visit_edge g maxd bd cd cn st e =
      (if cn = ?s then relax maxd bd st ?s ?t ?t (cd + cost e)
       else if cn = ?t then relax maxd bd st ?s ?t ?s (cd + cost e)
       else Inr st)"
    by (simp add: visit_edge_def graph_ok_vertex_point[OF assms(1,2)])
  show ?thesis
    unfolding unfold using relax_ok[OF assms(3)] by simp
qed

lemma visit_edges_ok:
  assumes "graph_ok g" "set es \<subseteq> set (edges g)"
    "\<forall>e \<in> set es. cd + cost e \<le> maxd \<longrightarrow> maxd \<noteq> 0"
  shows "\<exists>st'. visit_edges g maxd bd cd cn st es = Inr st'"
  using assms(2,3)
proof (induction es arbitrary: st)
  case Nil
  then show ?case by simp
next
  case (Cons e es)
  from Cons.prems have "e \<in> set (edges g)" "cd + cost e \<le> maxd \<longrightarrow> maxd \<noteq> 0" by auto
  from visit_edge_ok[OF assms(1) this] obtain st1 where
    s1: "visit_edge g maxd bd cd cn st e = Inr st1" by blast
  from Cons.prems have "set es \<subseteq> set (edges g)"
    "\<forall>e \<in> set es. cd + cost e \<le> maxd \<longrightarrow> maxd \<noteq> 0" by auto
  from Cons.IH[OF this] obtain st' where "visit_edges g maxd bd cd cn st1 es = Inr st'"
    by blast
  with s1 show ?case by simp
qed

lemma loop_body_ok:
  assumes "graph_ok g" "positive_weights g" "nonneg_queue st" "priority_queue st \<noteq> []"
  shows "\<exists>st'. loop_body g maxd bd st = Inr st' \<and> nonneg_queue st'"
proof -
  obtain d c where m: "Min (set (priority_queue st)) = (d, c)"
    by (cases "Min (set (priority_queue st))") auto
  have mem: "(d, c) \<in> set (priority_queue st)"
    using assms(4) m by (rule Min_queue_in)
  then have d0: "0 \<le> d" using assms(3) by (auto simp: nonneg_queue_def list_all_iff)
  have pos: "\<forall>e \<in> set (edges g). 0 < cost e"
    using assms(2) by (simp add: positive_weights_def list_all_iff)
  have ret: "\<exists>st'. loop_body g maxd bd st = Inr st'"
  proof (cases "findVertex g c")
    case None
    then show ?thesis using assms(4) m by (simp add: loop_body_def heappop_def Let_def)
  next
    case (Some v)
    let ?es = "outgoingEdges g v @ incomingEdges g v"
    have "\<forall>e \<in> set ?es. d + cost e \<le> maxd \<longrightarrow> maxd \<noteq> 0"
    proof (intro ballI impI)
      fix e assume "e \<in> set ?es" "d + cost e \<le> maxd"
      with incident_edges_subset[of g v] pos have "0 < cost e" by blast
      with d0 \<open>d + cost e \<le> maxd\<close> show "maxd \<noteq> 0" by simp
    qed
    from visit_edges_ok[OF assms(1) incident_edges_subset this]
    have "\<exists>st'. visit_edges g maxd bd d c
         (st\<lparr>priority_queue := remove1 (d, c) (priority_queue st),
             searched_list := insert (Tuple c) (searched_list st)\<rparr>) ?es = Inr st'" .
    then show ?thesis using assms(4) m Some
      by (simp add: loop_body_def heappop_def Let_def)
  qed
  then obtain st' where b: "loop_body g maxd bd st = Inr st'" by blast
  from loop_body_queue[OF b] obtain d' c' pushed where
    dc: "(d', c') \<in> set (priority_queue st)" and
    q: "priority_queue st' = remove1 (d', c') (priority_queue st) @ pushed" and
    p: "\<forall>x \<in> set pushed. \<exists>e \<in> set (edges g). fst x = d' + cost e"
    by blast
  from dc assms(3) have "0 \<le> d'" by (auto simp: nonneg_queue_def list_all_iff)
  with p pos have "\<forall>x \<in> set pushed. 0 \<le> fst x" by fastforce
  moreover have "\<forall>x \<in> set (remove1 (d', c') (priority_queue st)). 0 \<le> fst x"
    using assms(3) set_remove1_subset[of "(d', c')" "priority_queue st"]
    by (auto simp: nonneg_queue_def list_all_iff)
  ultimately have "nonneg_queue st'" using q by (auto simp: nonneg_queue_def list_all_iff)
  with b show ?thesis by blast
qed

lemma dijkstra_loop_terminates:
  assumes "graph_ok g" "positive_weights g" "nonneg_queue st"
  shows "\<exists>n st'. pops n g maxd bd st = Inr st' \<and> priority_queue st' = [] \<and>
           dijkstra_loop g maxd bd st = Inr st'"
  using assms
proof (induction g maxd bd st rule: dijkstra_loop.induct)
  case (1 g maxd bd st)
  show ?case
  proof (cases "priority_queue st = []")
    case True
    then have "pops 0 g maxd bd st = Inr st \<and> priority_queue st = [] \<and>
           dijkstra_loop g maxd bd st = Inr st"
      by (simp add: dijkstra_loop.simps)
    then show ?thesis by blast
  next
    case False
    from loop_body_ok[OF "1.prems" False] obtain st1 where
      b: "loop_body g maxd bd st = Inr st1" and nn: "nonneg_queue st1" by blast
    from "1.IH"[OF False b "1.prems"(1,2) nn] obtain n st' where
      r: "pops n g maxd bd st1 = Inr st'" "priority_queue st' = []"
         "dijkstra_loop g maxd bd st1 = Inr st'" by blast
    have "pops (Suc n) g maxd bd st = Inr st'" using b r(1) by simp
    moreover have "dijkstra_loop g maxd bd st = Inr st'"
      using False b r(3) by (subst dijkstra_loop.simps) simp
    ultimately show ?thesis using r(2) by blast
  qed
qed

text \<open>
  C5.  Termination: on a graph whose edges join existing vertices and have positive
  weights, for every list of start points and every \<open>max_distance\<close>, the queue is empty
  after finitely many pops, none of which raises; that state is the result of the loop.
\<close>

theorem search_terminates:
  assumes "graph_ok graph" and "positive_weights graph"
  shows "\<exists>n st. pops n graph max_distance buffer_distance (init_search start_points) = Inr st \<and>
           priority_queue st = [] \<and>
           dijkstra_loop graph max_distance buffer_distance (init_search start_points) = Inr st"
proof -
  have "nonneg_queue (init_search start_points)"
    by (simp add: nonneg_queue_def init_search_def list_all_iff)
  from dijkstra_loop_terminates[OF assms this] show ?thesis .
qed

text \<open>The road of ten segments: its search ends with an empty queue.\<close>

theorem search_terminates_witness:
  "graph_ok split_graph \<and> positive_weights split_graph \<and>
   (\<exists>n st. pops n split_graph 500 200 (init_search [(0, 0)]) = Inr st \<and>
            priority_queue st = [] \<and>
            dijkstra_loop split_graph 500 200 (init_search [(0, 0)]) = Inr st)"
  using search_terminates[OF graph_ok_split_graph positive_weights_split_graph, of 500 200 "[(0, 0)]"]
    graph_ok_split_graph positive_weights_split_graph
  by blast

text \<open>Whatever the graph and the weights, the loop stops: it raises or empties the queue.\<close>

lemma search_stops:
  "\<exists>n. case pops n g maxd bd st of Inl err \<Rightarrow> True | Inr st' \<Rightarrow> priority_queue st' = []"
proof (induction g maxd bd st rule: dijkstra_loop.induct)
  case (1 g maxd bd st)
  show ?case
  proof (cases "priority_queue st = []")
    case True
    then have "case pops 0 g maxd bd st of Inl err \<Rightarrow> True | Inr st' \<Rightarrow> priority_queue st' = []"
      by simp
    then show ?thesis by blast
  next
    case False
    show ?thesis
    proof (cases "loop_body g maxd bd st")
      case (Inl err)
      then have "case pops (Suc 0) g maxd bd st of Inl err \<Rightarrow> True | Inr st' \<Rightarrow> priority_queue st' = []"
        by simp
      then show ?thesis by blast
    next
      case (Inr st1)
      from "1.IH"[OF False Inr] obtain n where
        "case pops n g maxd bd st1 of Inl err \<Rightarrow> True | Inr st' \<Rightarrow> priority_queue st' = []"
        by blast
      with Inr have "case pops (Suc n) g maxd bd st of Inl err \<Rightarrow> True | Inr st' \<Rightarrow> priority_queue st' = []"
        by simp
      then show ?thesis by blast
    qed
  qed
qed

lemma relax_over_budget: "maxd < nd \<Longrightarrow> relax maxd bd st s t nx nd = Inr st"
  by (simp add: relax_def)

lemma visit_edge_over_budget:
  assumes "graph_ok g" "e \<in> set (edges g)" "maxd < cd + cost e"
  shows "visit_edge g maxd bd cd cn st e = Inr st"
  using assms(3)
  by (simp add: visit_edge_def graph_ok_vertex_point[OF assms(1,2)] relax_over_budget)

lemma visit_edges_over_budget:
  assumes "graph_ok g" "set es \<subseteq> set (edges g)" "list_all (\<lambda>e. maxd < cd + cost e) es"
  shows "visit_edges g maxd bd cd cn st es = Inr st"
  using assms(2,3)
proof (induction es)
  case Nil
  then show ?case by simp
next
  case (Cons e es)
  then have "visit_edge g maxd bd cd cn st e = Inr st"
    using visit_edge_over_budget[OF assms(1), of e maxd cd] by simp
  with Cons show ?case by simp
qed

lemma loop_body_seeds_only:
  assumes "edges g = [] \<or> max_distance < 0 \<or> (graph_ok g \<and> no_hop_within_budget g seeds max_distance)"
    and "seeds_only seeds st" "priority_queue st \<noteq> []"
  shows "\<exists>st'. loop_body g max_distance bd st = Inr st' \<and> seeds_only seeds st'"
proof -
  obtain d c where m: "Min (set (priority_queue st)) = (d, c)"
    by (cases "Min (set (priority_queue st))") auto
  have mem: "(d, c) \<in> set (priority_queue st)"
    using assms(3) m by (rule Min_queue_in)
  with assms(2) have d0: "d = 0" and cs: "c \<in> set seeds"
    by (auto simp: seeds_only_def)
  let ?rest = "remove1 (d, c) (priority_queue st)"
  let ?st0 = "st\<lparr>priority_queue := ?rest\<rparr>"
  let ?st1 = "st\<lparr>priority_queue := ?rest, searched_list := insert (Tuple c) (searched_list st)\<rparr>"
  have so0: "seeds_only seeds ?st0" and so1: "seeds_only seeds ?st1"
    using assms(2) set_remove1_subset[of "(d, c)" "priority_queue st"]
    by (auto simp: seeds_only_def)
  have "loop_body g max_distance bd st = Inr ?st0 \<or> loop_body g max_distance bd st = Inr ?st1"
  proof (cases "Tuple c \<in> searched_list st")
    case True
    then show ?thesis using assms(3) m by (simp add: loop_body_def heappop_def)
  next
    case nv: False
    show ?thesis
    proof (cases "findVertex g c")
      case None
      then show ?thesis using assms(3) m nv by (simp add: loop_body_def heappop_def Let_def)
    next
      case (Some v)
      let ?es = "outgoingEdges g v @ incomingEdges g v"
      have "d > max_distance \<or> visit_edges g max_distance bd d c ?st1 ?es = Inr ?st1"
        using assms(1)
      proof (elim disjE conjE)
        assume "edges g = []"
        then have "?es = []" by (simp add: outgoingEdges_def incomingEdges_def)
        then show ?thesis by simp
      next
        assume "max_distance < 0"
        then show ?thesis using d0 by simp
      next
        assume ok: "graph_ok g" and nh: "no_hop_within_budget g seeds max_distance"
        from nh cs Some have "list_all (\<lambda>e. max_distance < cost e) ?es"
          by (auto simp: no_hop_within_budget_def list_all_iff)
        then have "list_all (\<lambda>e. max_distance < d + cost e) ?es"
          using d0 by simp
        from visit_edges_over_budget[OF ok incident_edges_subset this]
        show ?thesis by simp
      qed
      then show ?thesis using assms(3) m nv Some
        by (auto simp: loop_body_def heappop_def Let_def)
    qed
  qed
  with so0 so1 show ?thesis by auto
qed

lemma dijkstra_loop_seeds_only:
  assumes "edges g = [] \<or> max_distance < 0 \<or> (graph_ok g \<and> no_hop_within_budget g seeds max_distance)"
    and "seeds_only seeds st"
  shows "\<exists>st'. dijkstra_loop g max_distance bd st = Inr st' \<and> searched_roads st' = []"
  using assms
proof (induction g max_distance bd st rule: dijkstra_loop.induct)
  case (1 g max_distance bd st)
  show ?case
  proof (cases "priority_queue st = []")
    case True
    then show ?thesis using "1.prems"(2)
      by (simp add: dijkstra_loop.simps seeds_only_def)
  next
    case False
    from loop_body_seeds_only[OF "1.prems" False, of bd] obtain st1 where
      b: "loop_body g max_distance bd st = Inr st1" and so: "seeds_only seeds st1" by blast
    from "1.IH"[OF False b "1.prems"(1) so] obtain st' where
      r: "dijkstra_loop g max_distance bd st1 = Inr st'" "searched_roads st' = []" by blast
    have "dijkstra_loop g max_distance bd st = Inr st'"
      using False b r(1) by (subst dijkstra_loop.simps) simp
    with r(2) show ?thesis by blast
  qed
qed

text \<open>
  When no traversal from a start point fits the budget, the search raises nothing and
  returns the list that holds the union of no buffer, whatever the union function.
\<close>

lemma no_buffers_union_of_nothing:
  assumes "edges graph = [] \<or> max_distance < 0 \<or>
           (graph_ok graph \<and> no_hop_within_budget graph start_points max_distance)"
  shows "dijkstra unary_union graph start_points max_distance buffer_distance = Inr [unary_union []]"
proof -
  have "seeds_only start_points (init_search start_points)"
    by (simp add: seeds_only_def init_search_def)
  from dijkstra_loop_seeds_only[OF assms this, of buffer_distance] obtain st' where
    "dijkstra_loop graph max_distance buffer_distance (init_search start_points) = Inr st'"
    "searched_roads st' = []" by blast
  then show ?thesis by (simp add: dijkstra_def dijkstra_roads_def)
qed

text \<open>
  On the graph without edges the result is never a polygon, for any union function that
  agrees with the library on the empty list: the returned geometry is not an empty
  \<^verbatim>\<open>Polygon\<close>.
\<close>

theorem empty_area_not_a_polygon:
  "\<not> (\<exists>unary_union wkt. library_union unary_union \<and>
         dijkstra unary_union empty_graph [(0, 0)] 500 200 = Inr [Polygon wkt])"
proof
  assume "\<exists>unary_union wkt. library_union unary_union \<and>
         dijkstra unary_union empty_graph [(0, 0)] 500 200 = Inr [Polygon wkt]"
  then obtain unary_union wkt where
    l: "library_union unary_union" and
    d: "dijkstra unary_union empty_graph [(0, 0)] 500 200 = Inr [Polygon wkt]"
    by blast
  have "edges empty_graph = []" by (simp add: empty_graph_def)
  then have "dijkstra unary_union empty_graph [(0, 0)] 500 200 = Inr [unary_union []]"
    using no_buffers_union_of_nothing[of empty_graph 500 "[(0, 0)]" unary_union 200] by simp
  with d l show False by (simp add: library_union_def union_of_nothing_def)
qed

text \<open>
  C4.  Empty result, as the code has it: on a graph with no edges, and more generally when
  no traversal from a start point fits the budget (a negative budget, start points that
  are no vertex, start vertices without edges, first hops longer than the budget), the
  search raises nothing and returns a list of one geometry, the union of no polygons,
  which is the empty geometry collection and not a polygon.
\<close>

theorem empty_area_without_exception:
  assumes "library_union unary_union"
    and "edges graph = [] \<or> max_distance < 0 \<or>
         (graph_ok graph \<and> no_hop_within_budget graph start_points max_distance)"
  shows "dijkstra unary_union graph start_points max_distance buffer_distance =
           Inr [GeometryCollection ''GEOMETRYCOLLECTION EMPTY'']"
  using no_buffers_union_of_nothing[OF assms(2), of unary_union buffer_distance] assms(1)
  by (simp add: library_union_def union_of_nothing_def)

text \<open>
  The graph without edges, and the single road of 1000 m searched with a budget of 500.
\<close>

theorem empty_area_without_exception_witness:
  "library_union (\<lambda>roads. union_of_nothing) \<and>
   edges empty_graph = [] \<and>
   dijkstra (\<lambda>roads. union_of_nothing) empty_graph [(0, 0)] 500 200 =
     Inr [GeometryCollection ''GEOMETRYCOLLECTION EMPTY''] \<and>
   graph_ok straight_graph \<and> no_hop_within_budget straight_graph [(0, 0)] 500 \<and>
   dijkstra (\<lambda>roads. union_of_nothing) straight_graph [(0, 0)] 500 200 =
     Inr [GeometryCollection ''GEOMETRYCOLLECTION EMPTY'']"
proof (intro conjI)
  show l: "library_union (\<lambda>roads. union_of_nothing)" by (simp add: library_union_def)
  show e: "edges empty_graph = []" by (simp add: empty_graph_def)
  show "dijkstra (\<lambda>roads. union_of_nothing) empty_graph [(0, 0)] 500 200 =
     Inr [GeometryCollection ''GEOMETRYCOLLECTION EMPTY'']"
    using empty_area_without_exception[OF l, of empty_graph 500 "[(0, 0)]" 200] e by simp
  show "graph_ok straight_graph" by (rule graph_ok_straight_graph)
  show "no_hop_within_budget straight_graph [(0, 0)] 500" by (rule no_hop_straight_graph)
  show "dijkstra (\<lambda>roads. union_of_nothing) straight_graph [(0, 0)] 500 200 =
     Inr [GeometryCollection ''GEOMETRYCOLLECTION EMPTY'']"
    using empty_area_without_exception[OF l, of straight_graph 500 "[(0, 0)]" 200]
      graph_ok_straight_graph no_hop_straight_graph by simp
qed

text \<open>
  A search that returns buffers had a positive budget: with a negative budget no start
  entry is expanded, and with the budget 0 every traversal within it raises before its
  buffer is collected.
\<close>

lemma visit_edges_zero_budget:
  assumes "visit_edges g 0 bd cd cn st es = Inr st'"
  shows "st' = st"
  using assms
proof (induction es arbitrary: st)
  case Nil
  then show ?case by simp
next
  case (Cons e es)
  from Cons.prems obtain st1 where
    e1: "visit_edge g 0 bd cd cn st e = Inr st1" and
    r1: "visit_edges g 0 bd cd cn st1 es = Inr st'"
    by (auto split: sum.splits)
  from visit_edge_effect[OF e1] have "st1 = st" by blast
  with Cons.IH[OF r1] show ?case by simp
qed

lemma loop_body_zero_budget:
  assumes "loop_body g 0 bd st = Inr st'"
  shows "searched_roads st' = searched_roads st"
  using assms
proof (cases rule: loop_body_cases)
  case (expand d c v)
  from visit_edges_zero_budget[OF expand(6)] show ?thesis by simp
qed simp_all

lemma dijkstra_loop_zero_budget:
  assumes "dijkstra_loop g maxd bd st = Inr st'" "maxd = 0"
  shows "searched_roads st' = searched_roads st"
  using assms
proof (induction g maxd bd st rule: dijkstra_loop.induct)
  case (1 g maxd bd st)
  show ?case
  proof (cases "priority_queue st = []")
    case True
    with "1.prems" show ?thesis by (simp add: dijkstra_loop.simps)
  next
    case False
    with "1.prems"(1) obtain st1 where
      b: "loop_body g maxd bd st = Inr st1" and r: "dijkstra_loop g maxd bd st1 = Inr st'"
      by (subst (asm) dijkstra_loop.simps) (auto split: sum.splits)
    from b "1.prems"(2) have "searched_roads st1 = searched_roads st"
      using loop_body_zero_budget by simp
    with "1.IH"[OF False b r "1.prems"(2)] show ?thesis by simp
  qed
qed

lemma emitted_positive_budget:
  assumes "dijkstra_roads g seeds maxd bd = Inr roads" "roads \<noteq> []"
  shows "0 < maxd"
proof (rule ccontr)
  assume "\<not> 0 < maxd"
  then consider "maxd < 0" | "maxd = 0" by fastforce
  then show False
  proof cases
    case 1
    have "seeds_only seeds (init_search seeds)"
      by (simp add: seeds_only_def init_search_def)
    with 1 dijkstra_loop_seeds_only[of g maxd seeds "init_search seeds" bd]
    have "dijkstra_roads g seeds maxd bd = Inr []"
      by (auto simp: dijkstra_roads_def)
    with assms show False by simp
  next
    case 2
    from assms(1) obtain st where
      l: "dijkstra_loop g maxd bd (init_search seeds) = Inr st" and r: "roads = searched_roads st"
      by (auto simp: dijkstra_roads_def split: sum.splits)
    from dijkstra_loop_zero_budget[OF l 2] r have "roads = []"
      by (simp add: init_search_def)
    with assms(2) show False by simp
  qed
qed

text \<open>
  C6.  Buffer width decay: in a search that emitted buffers, with a base buffer distance
  that is not negative, the width \<open>base * (max_distance - d) / max_distance\<close> used at a
  tentative distance \<open>d1\<close> is at least the width used at a greater tentative distance
  \<open>d2 \<le> max_distance\<close>.
\<close>

theorem buffer_width_decay:
  assumes "dijkstra_roads graph start_points max_distance buffer_distance = Inr roads"
    and "roads \<noteq> []"
    and "0 \<le> buffer_distance"
    and "d1 < d2" and "d2 \<le> max_distance"
  shows "buffer_width buffer_distance max_distance d2 \<le> buffer_width buffer_distance max_distance d1"
proof -
  have pos: "0 < max_distance"
    using assms(1,2) by (rule emitted_positive_budget)
  have "buffer_distance * (max_distance - d2) \<le> buffer_distance * (max_distance - d1)"
    using assms(3,4) by (intro mult_left_mono) simp_all
  then show ?thesis
    using pos by (simp add: buffer_width_def divide_right_mono)
qed

text \<open>
  The search on the short road emits at the tentative distances 100 and 200: widths 160
  and 120.
\<close>

theorem buffer_width_decay_witness:
  "dijkstra_roads short_graph [(0, 0)] 500 200 =
     Inr [\<lparr>line_start = (0, 0), line_end = (100, 0), buff = 160\<rparr>,
          \<lparr>line_start = (0, 0), line_end = (100, 0), buff = 120\<rparr>] \<and>
   (0::real) \<le> 200 \<and> (100::real) < 200 \<and> (200::real) \<le> 500 \<and>
   buffer_width 200 500 200 \<le> buffer_width 200 500 100 \<and>
   buffer_width 200 500 100 = 160 \<and> buffer_width 200 500 200 = 120"
  using buffer_width_decay[OF short_graph_search, of 100 200] short_graph_search
  by (simp add: buffer_width_def)

text \<open>
  Every buffer a search returns has the width of the decay formula at a tentative
  distance within the budget.
\<close>

lemma loop_body_roads:
  assumes "loop_body g maxd bd st = Inr st'" "emitted_within bd maxd (searched_roads st)"
  shows "emitted_within bd maxd (searched_roads st')"
  using assms(1)
proof (cases rule: loop_body_cases)
  case (expand d c v)
  from visit_edges_effect[OF expand(6)] obtain emitted where
    r: "searched_roads st' = searched_roads st @ emitted" and
    e: "\<forall>b \<in> set emitted. \<exists>e \<in> set (outgoingEdges g v @ incomingEdges g v).
          d + cost e \<le> maxd \<and> buff b = buffer_width bd maxd (d + cost e)"
    by auto
  from e have "emitted_within bd maxd emitted"
    unfolding emitted_within_def list_all_iff by blast
  with assms(2) r show ?thesis by (simp add: emitted_within_def)
qed (use assms(2) in simp_all)

lemma dijkstra_loop_roads:
  assumes "dijkstra_loop g maxd bd st = Inr st'" "emitted_within bd maxd (searched_roads st)"
  shows "emitted_within bd maxd (searched_roads st')"
  using assms
proof (induction g maxd bd st rule: dijkstra_loop.induct)
  case (1 g maxd bd st)
  show ?case
  proof (cases "priority_queue st = []")
    case True
    with "1.prems" show ?thesis by (simp add: dijkstra_loop.simps)
  next
    case False
    with "1.prems"(1) obtain st1 where
      b: "loop_body g maxd bd st = Inr st1" and r: "dijkstra_loop g maxd bd st1 = Inr st'"
      by (subst (asm) dijkstra_loop.simps) (auto split: sum.splits)
    from "1.IH"[OF False b r loop_body_roads[OF b "1.prems"(2)]] show ?thesis .
  qed
qed

lemma emitted_within_budget:
  assumes "dijkstra_roads g seeds maxd bd = Inr roads"
  shows "emitted_within bd maxd roads"
proof -
  from assms obtain st where
    l: "dijkstra_loop g maxd bd (init_search seeds) = Inr st" and r: "roads = searched_roads st"
    by (auto simp: dijkstra_roads_def split: sum.splits)
  have "emitted_within bd maxd (searched_roads (init_search seeds))"
    by (simp add: emitted_within_def init_search_def)
  from dijkstra_loop_roads[OF l this] r show ?thesis by simp
qed

section \<open>The scenarios, evaluated\<close>

text \<open>
  With the visited test on coordinates, the road of ten segments is searched in six pops
  and gives five buffers, one per segment up to \<open>x = 500\<close>; the last has width 0.
\<close>

lemmas spec_step_defs = spec_loop_body_def heappop_def findVertex_def outgoingEdges_def
  incomingEdges_def spec_visit_edge_def vertex_point_def spec_relax_def heappush_def
  buffer_width_def Let_def

lemma spec_search_split_graph:
  "spec_pops 6 split_graph 500 200 (init_search [(0, 0)]) =
     Inr \<lparr>priority_queue = [],
          searched_list = {Tuple (0, 0), Tuple (100, 0), Tuple (200, 0), Tuple (300, 0),
                           Tuple (400, 0), Tuple (500, 0)},
          searched_roads =
            [\<lparr>line_start = (0, 0), line_end = (100, 0), buff = 160\<rparr>,
             \<lparr>line_start = (100, 0), line_end = (200, 0), buff = 120\<rparr>,
             \<lparr>line_start = (200, 0), line_end = (300, 0), buff = 80\<rparr>,
             \<lparr>line_start = (300, 0), line_end = (400, 0), buff = 40\<rparr>,
             \<lparr>line_start = (400, 0), line_end = (500, 0), buff = 0\<rparr>]\<rparr>"
proof -
  have six: "(6::nat) = Suc (Suc (Suc (Suc (Suc (Suc 0)))))" by simp
  show ?thesis
    unfolding six
    by (simp add: spec_step_defs init_search_def split_graph_def insert_commute)
qed

text \<open>
  The road of ten segments, start point \<open>(0, 0)\<close>, budget 500, base width 200: the search
  returns nine buffers, and the two at the tentative distance 500 have width 0.  So the
  buffers are not exactly five with a positive width each.
\<close>

theorem end_to_end_counterexample:
  "dijkstra_roads split_graph [(0, 0)] 500 200 =
     Inr [\<lparr>line_start = (0, 0), line_end = (100, 0), buff = 160\<rparr>,
          \<lparr>line_start = (100, 0), line_end = (200, 0), buff = 120\<rparr>,
          \<lparr>line_start = (0, 0), line_end = (100, 0), buff = 120\<rparr>,
          \<lparr>line_start = (200, 0), line_end = (300, 0), buff = 80\<rparr>,
          \<lparr>line_start = (100, 0), line_end = (200, 0), buff = 80\<rparr>,
          \<lparr>line_start = (300, 0), line_end = (400, 0), buff = 40\<rparr>,
          \<lparr>line_start = (200, 0), line_end = (300, 0), buff = 40\<rparr>,
          \<lparr>line_start = (400, 0), line_end = (500, 0), buff = 0\<rparr>,
          \<lparr>line_start = (300, 0), line_end = (400, 0), buff = 0\<rparr>] \<and>
   \<not> (\<exists>roads. dijkstra_roads split_graph [(0, 0)] 500 200 = Inr roads \<and>
          length roads = 5 \<and> list_all (\<lambda>b. 0 < buff b) roads)"
  by (simp add: split_graph_search)

text \<open>
  C1.  End-to-end scenario, as the code has it.  The single road of 1000 m gives the graph
  with one edge of weight 1000; its search from \<open>(0, 0)\<close> with budget 500 emits no buffer
  and returns the union of no polygons.  The same road in ten segments gives the graph
  with ten edges of weight 100; its search emits, among its buffers, one for each of the
  five segments from \<open>x = 0\<close> to \<open>x = 500\<close> with the widths of the tentative distances 100,
  200, 300, 400 and 500, the last of which is 0; every emitted buffer is on a segment of
  the x-axis between 0 and 500 and has a width between 0 and 160.
\<close>

theorem end_to_end_scenario:
  "extract_road_nodes straight_road = Inr straight_graph \<and>
   dijkstra_roads straight_graph [(0, 0)] 500 200 = Inr [] \<and>
   dijkstra unary_union straight_graph [(0, 0)] 500 200 = Inr [unary_union []] \<and>
   extract_road_nodes split_road = Inr split_graph \<and>
   (\<exists>roads. dijkstra_roads split_graph [(0, 0)] 500 200 = Inr roads \<and>
      set [\<lparr>line_start = (0, 0), line_end = (100, 0), buff = buffer_width 200 500 100\<rparr>,
           \<lparr>line_start = (100, 0), line_end = (200, 0), buff = buffer_width 200 500 200\<rparr>,
           \<lparr>line_start = (200, 0), line_end = (300, 0), buff = buffer_width 200 500 300\<rparr>,
           \<lparr>line_start = (300, 0), line_end = (400, 0), buff = buffer_width 200 500 400\<rparr>,
           \<lparr>line_start = (400, 0), line_end = (500, 0), buff = buffer_width 200 500 500\<rparr>]
        \<subseteq> set roads \<and>
      map (buffer_width 200 500) [100, 200, 300, 400, 500] = [160, 120, 80, 40, 0] \<and>
      list_all (\<lambda>b. snd (line_start b) = 0 \<and> snd (line_end b) = 0 \<and>
                     0 \<le> fst (line_start b) \<and> fst (line_start b) \<le> fst (line_end b) \<and>
                     fst (line_end b) \<le> 500 \<and> 0 \<le> buff b \<and> buff b \<le> 160) roads)"
  by (simp add: straight_road_graph straight_road_search split_road_graph split_graph_search
      dijkstra_def buffer_width_def)

text \<open>
  C2.  The push and the buffer of a traversal are guarded by the budget alone.  On the road
  of one 100 m segment, start point \<open>(0, 0)\<close>, budget 500: after the first pop the visited
  set holds the tuple \<open>(0, 0)\<close>; the second pop, of \<open>(100, 0)\<close>, examines the edge
  back to \<open>(0, 0)\<close>, pushes \<open>(200, (0, 0))\<close> and emits a second buffer of the same
  segment, although that neighbour's coordinate is in the visited set.  The source asks
  the set of tuples for the neighbour's \<^verbatim>\<open>QgsPointXY\<close> object, which it never holds.
\<close>

theorem visited_neighbour_pushed:
  "pops 1 short_graph 500 200 (init_search [(0, 0)]) =
     Inr \<lparr>priority_queue = [(100, (100, 0))],
          searched_list = {Tuple (0, 0)},
          searched_roads = [\<lparr>line_start = (0, 0), line_end = (100, 0), buff = 160\<rparr>]\<rparr> \<and>
   pops 2 short_graph 500 200 (init_search [(0, 0)]) =
     Inr \<lparr>priority_queue = [(200, (0, 0))],
          searched_list = {Tuple (100, 0), Tuple (0, 0)},
          searched_roads = [\<lparr>line_start = (0, 0), line_end = (100, 0), buff = 160\<rparr>,
                            \<lparr>line_start = (0, 0), line_end = (100, 0), buff = 120\<rparr>]\<rparr> \<and>
   dijkstra_roads short_graph [(0, 0)] 500 200 =
     Inr [\<lparr>line_start = (0, 0), line_end = (100, 0), buff = 160\<rparr>,
          \<lparr>line_start = (0, 0), line_end = (100, 0), buff = 120\<rparr>]"
  using pops_1_short_graph pops_2_short_graph short_graph_search by (intro conjI)

section \<open>Properties of storing the area\<close>

text \<open>
  A multi-part union and an empty geometry collection are not stored; a polygon is.  The
  last line runs the whole step for a shelter whose union is a multi-polygon.
\<close>

theorem multipart_area_not_stored:
  "add_buffer_features 7 [MultiPolygon ''MULTIPOLYGON (((0 0, 1 0, 1 1, 0 0)), ((5 5, 6 5, 6 6, 5 5)))''] [] = [] \<and>
   add_buffer_features 7 [GeometryCollection ''GEOMETRYCOLLECTION EMPTY''] [] = [] \<and>
   add_buffer_features 7 [Polygon ''POLYGON ((0 0, 1 0, 1 1, 0 0))''] [] =
     [\<lparr>geometry = ''POLYGON ((0 0, 1 0, 1 1, 0 0))'', attributes = [7]\<rparr>] \<and>
   shelter_area (\<lambda>roads. MultiPolygon ''MULTIPOLYGON (((0 0, 1 0, 1 1, 0 0)), ((5 5, 6 5, 6 6, 5 5)))'')
     short_graph [(0, 0)] 500 7 [] = Inr []"
  by (simp add: shelter_area_def dijkstra_def short_graph_search)

text \<open>
  C3.  What the caller stores, as the code has it: when the search returns, the layer
  gains one feature with the union's geometry and the shelter's \<open>fid\<close> if the union is
  an instance of \<^verbatim>\<open>Polygon\<close>, and nothing if it is a multi-polygon or a geometry
  collection.
\<close>

theorem area_stored_when_polygon:
  assumes "dijkstra_roads node_graph nearest_nodes distance 200 = Inr roads"
  shows "shelter_area unary_union node_graph nearest_nodes distance fid layer =
     Inr (case unary_union roads of
            Polygon wkt \<Rightarrow> layer @ [\<lparr>geometry = wkt, attributes = [fid]\<rparr>]
          | MultiPolygon wkt \<Rightarrow> layer
          | GeometryCollection wkt \<Rightarrow> layer)"
  using assms by (simp add: shelter_area_def dijkstra_def split: shapely_geom.splits)

text \<open>The short road with a union that is a polygon: one feature with \<open>fid\<close> 7.\<close>

theorem area_stored_when_polygon_witness:
  "dijkstra_roads short_graph [(0, 0)] 500 200 =
     Inr [\<lparr>line_start = (0, 0), line_end = (100, 0), buff = 160\<rparr>,
          \<lparr>line_start = (0, 0), line_end = (100, 0), buff = 120\<rparr>] \<and>
   shelter_area (\<lambda>roads. Polygon ''POLYGON ((0 0, 1 0, 1 1, 0 0))'') short_graph [(0, 0)] 500 7 [] =
     Inr [\<lparr>geometry = ''POLYGON ((0 0, 1 0, 1 1, 0 0))'', attributes = [7]\<rparr>]"
  using area_stored_when_polygon[OF short_graph_search,
      of "\<lambda>roads. Polygon ''POLYGON ((0 0, 1 0, 1 1, 0 0))''" 7 "[]"]
    short_graph_search
  by simp

end
